theory Spec2Isabelle
  imports Main
begin

section \<open>The store of the dependency graph engine (lib/system.ts)\<close>

text \<open>
  Objects are addressed by references. A JavaScript reference always denotes a live
  object, so every field is a total map from references to values, one map per field
  of the interfaces \<open>Link\<close>, \<open>IEffect\<close>, \<open>Dependency\<close> and \<open>Subscriber\<close>;
  \<open>undefined\<close> is \<open>None\<close>. Links and nodes live in two address spaces. A node
  is one object that may play several of the roles Dependency, Subscriber and IEffect
  (a derived value is both a Dependency and a Subscriber), so the fields of the three
  interfaces are indexed by the same node references. The number fields hold
  integer-valued doubles; they are kept as integers, with the rounding of
  \<open>++\<close> and \<open>--\<close> written out in \<open>increment\<close> and \<open>decrement\<close>.
\<close>

type_synonym ref = nat

datatype error = TypeError | Thrown

datatype event = Notify ref | Update ref | LostSubs ref

record state =
  \<comment> \<open>interface Link\<close>
  dep :: "ref \<Rightarrow> ref option"
  link_depVersion :: "ref \<Rightarrow> int"
  sub :: "ref \<Rightarrow> ref option"
  prevSubOrUpdate :: "ref \<Rightarrow> ref option"
  nextSub :: "ref \<Rightarrow> ref option"
  nextDep :: "ref \<Rightarrow> ref option"
  prevPropagateOrNextReleased :: "ref \<Rightarrow> ref option"
  \<comment> \<open>interface IEffect\<close>
  nextNotify :: "ref \<Rightarrow> ref option"
  \<comment> \<open>interface Dependency\<close>
  subs :: "ref \<Rightarrow> ref option"
  subsTail :: "ref \<Rightarrow> ref option"
  depVersion :: "ref \<Rightarrow> int"
  subVersion :: "ref \<Rightarrow> int"
  \<comment> \<open>interface Subscriber\<close>
  versionOrDirtyLevel :: "ref \<Rightarrow> int"
  deps :: "ref \<Rightarrow> ref option"
  depsTail :: "ref \<Rightarrow> ref option"
  isScope :: "ref \<Rightarrow> bool"
  \<comment> \<open>namespace System\<close>
  activeSub :: "ref option"
  activeSubsDepth :: int
  batchDepth :: int
  system_subVersion :: int
  queuedEffects :: "ref option"
  queuedEffectsTail :: "ref option"
  \<comment> \<open>namespace Link: the free list\<close>
  pool :: "ref option"
  \<comment> \<open>the next unused link reference, for object literals created by \<open>Link.get\<close>\<close>
  next_link :: ref
  \<comment> \<open>the callbacks invoked so far, in order\<close>
  trace :: "event list"

text \<open>
  What the engine cannot see of a node is a parameter: which role properties the object
  has (\<open>'subs' in sub\<close>, \<open>'deps' in dep\<close>) and its optional methods
  (\<open>'notify' in sub\<close>, \<open>dep.update !== undefined\<close>,
  \<open>dep.notifyLostSubs !== undefined\<close>). A method is a state transformer that may
  throw.
\<close>

record env =
  has_subs :: "ref \<Rightarrow> bool"
  has_deps :: "ref \<Rightarrow> bool"
  notify :: "ref \<Rightarrow> (state \<Rightarrow> error + state) option"
  update :: "ref \<Rightarrow> (state \<Rightarrow> error + state) option"
  notifyLostSubs :: "ref \<Rightarrow> (state \<Rightarrow> error + state) option"

text \<open>\<open>const enum DirtyLevels\<close>: the numeric codes of the three levels.\<close>

definition NotDirty :: int where [simp]: "NotDirty = 0"
definition MaybeDirty :: int where [simp]: "MaybeDirty = 1"
definition Dirty :: int where [simp]: "Dirty = 2"

text \<open>
  A number of the program is an IEEE 754 double. The counters and version fields of the
  engine hold integers, kept here as \<open>int\<close>. The operators \<open>x++\<close> and
  \<open>x--\<close> are exact while the result has magnitude at most \<open>2^53\<close>; beyond,
  the sum is rounded to the nearest double, ties to the even significand: the doubles
  of magnitude between \<open>2^53\<close> and \<open>2^54\<close> are the even integers, and above
  \<open>2^54\<close> a step of 1 is rounded away. In particular \<open>x++\<close> leaves
  \<open>x = 2^53\<close> as it is.
\<close>

definition increment :: "int \<Rightarrow> int" where
  "increment x =
     (if - (2 ^ 53) \<le> x \<and> x < 2 ^ 53 then x + 1
      else if \<bar>x\<bar> < 2 ^ 54 then (if even (x div 2) then x else x + 2)
      else x)"

definition decrement :: "int \<Rightarrow> int" where
  "decrement x = - increment (- x)"

text \<open>The initial values of the variables of namespace System and of the pool.\<close>

definition init_system :: "state \<Rightarrow> state" where
  "init_system s = s\<lparr>activeSub := None, activeSubsDepth := 0, batchDepth := 0,
     system_subVersion := Dirty + 1, queuedEffects := None, queuedEffectsTail := None,
     pool := None\<rparr>"

text \<open>A store with no object in use: every reference \<open>undefined\<close>, every number 0.\<close>

definition empty_state :: state where
  "empty_state = \<lparr>dep = (\<lambda>_. None), link_depVersion = (\<lambda>_. 0), sub = (\<lambda>_. None),
     prevSubOrUpdate = (\<lambda>_. None), nextSub = (\<lambda>_. None), nextDep = (\<lambda>_. None),
     prevPropagateOrNextReleased = (\<lambda>_. None), nextNotify = (\<lambda>_. None),
     subs = (\<lambda>_. None), subsTail = (\<lambda>_. None), depVersion = (\<lambda>_. 0),
     subVersion = (\<lambda>_. 0), versionOrDirtyLevel = (\<lambda>_. 0), deps = (\<lambda>_. None),
     depsTail = (\<lambda>_. None), isScope = (\<lambda>_. False), activeSub = None,
     activeSubsDepth = 0, batchDepth = 0, system_subVersion = Dirty + 1,
     queuedEffects = None, queuedEffectsTail = None, pool = None, next_link = 0,
     trace = []\<rparr>"

section \<open>namespace Link\<close>

text \<open>
  \<open>Link.get\<close>: pop the free list, or create the object literal at the next unused
  reference. The result is the link and the new store.
\<close>

definition Link_get :: "ref \<Rightarrow> ref \<Rightarrow> state \<Rightarrow> ref \<times> state" where
  "Link_get d sb s =
     (case pool s of
        Some l \<Rightarrow>
          (l, s\<lparr>pool := prevPropagateOrNextReleased s l,
                 prevPropagateOrNextReleased := (prevPropagateOrNextReleased s)(l := None),
                 dep := (dep s)(l := Some d),
                 sub := (sub s)(l := Some sb)\<rparr>)
      | None \<Rightarrow>
          (let l = next_link s in
           (l, s\<lparr>next_link := Suc l,
                  dep := (dep s)(l := Some d),
                  link_depVersion := (link_depVersion s)(l := - 1),
                  sub := (sub s)(l := Some sb),
                  prevSubOrUpdate := (prevSubOrUpdate s)(l := None),
                  nextSub := (nextSub s)(l := None),
                  nextDep := (nextDep s)(l := None),
                  prevPropagateOrNextReleased := (prevPropagateOrNextReleased s)(l := None)\<rparr>)))"

text \<open>A method call: the invocation is recorded, then the method runs.\<close>

definition call :: "(state \<Rightarrow> error + state) \<Rightarrow> event \<Rightarrow> state \<Rightarrow> error + state" where
  "call f ev s = f (s\<lparr>trace := trace s @ [ev]\<rparr>)"

text \<open>
  \<open>Link.unlinkSub\<close>. Reading or writing a property of \<open>link.dep\<close> when it is
  \<open>undefined\<close> is a TypeError; the last statement reads \<open>dep.subs\<close> on every
  path, so an undefined \<open>link.dep\<close> always ends in the TypeError.
\<close>

definition unlinkSub :: "env \<Rightarrow> ref \<Rightarrow> state \<Rightarrow> error + state" where
  "unlinkSub e l s =
     (let nx = nextSub s l; pv = prevSubOrUpdate s l;
          s1 = (case nx of Some n \<Rightarrow> s\<lparr>prevSubOrUpdate := (prevSubOrUpdate s)(n := pv)\<rparr>
                | None \<Rightarrow> s);
          s2 = (case pv of Some p \<Rightarrow> s1\<lparr>nextSub := (nextSub s1)(p := nx)\<rparr>
                | None \<Rightarrow> s1)
      in case dep s l of
           None \<Rightarrow> Inl TypeError
         | Some d \<Rightarrow>
             (let s3 = (if nx = None then s2\<lparr>subsTail := (subsTail s2)(d := pv)\<rparr> else s2);
                  s4 = (if pv = None then s3\<lparr>subs := (subs s3)(d := nx)\<rparr> else s3);
                  s5 = s4\<lparr>sub := (sub s4)(l := None),
                          prevSubOrUpdate := (prevSubOrUpdate s4)(l := None),
                          nextSub := (nextSub s4)(l := None)\<rparr>
              in if subs s5 d = None
                 then (case notifyLostSubs e d of
                         Some f \<Rightarrow> call f (LostSubs d) s5
                       | None \<Rightarrow> Inr s5)
                 else Inr s5))"

definition release :: "env \<Rightarrow> ref \<Rightarrow> state \<Rightarrow> error + state" where
  "release e l s =
     (case unlinkSub e l s of
        Inl er \<Rightarrow> Inl er
      | Inr s1 \<Rightarrow>
          Inr (s1\<lparr>dep := (dep s1)(l := None),
                  prevPropagateOrNextReleased := (prevPropagateOrNextReleased s1)(l := pool s1),
                  pool := Some l\<rparr>))"

section \<open>namespace Dependency\<close>

text \<open>
  \<open>Dependency.link\<close>. \<open>system.activeSub!\<close> is not checked at run time: with
  no active subscriber the first property read of \<open>sub\<close> is a TypeError, and so is
  the write to \<open>oldTail.nextSub\<close> when \<open>dep.subsTail\<close> is undefined.
\<close>

definition link_new :: "ref \<Rightarrow> ref \<Rightarrow> ref option \<Rightarrow> ref option \<Rightarrow> state \<Rightarrow> error + state" where
  \<comment> \<open>the branch \<open>old === undefined || old.dep !== dep\<close>\<close>
  "link_new d sb dt old s1 =
     (let (newLink, s2) = Link_get d sb s1;
          s3 = s2\<lparr>link_depVersion := (link_depVersion s2)(newLink := depVersion s2 d)\<rparr>;
          s4 = (case old of
                  Some ol \<Rightarrow> s3\<lparr>nextDep := (nextDep s3)(newLink := Some ol)\<rparr>
                | None \<Rightarrow> s3);
          s5 = (case dt of
                  None \<Rightarrow> s4\<lparr>deps := (deps s4)(sb := Some newLink),
                               depsTail := (depsTail s4)(sb := Some newLink)\<rparr>
                | Some t \<Rightarrow> s4\<lparr>nextDep := (nextDep s4)(t := Some newLink),
                                 depsTail := (depsTail s4)(sb := Some newLink)\<rparr>)
      in
      if subs s5 d = None then
        Inr (s5\<lparr>subs := (subs s5)(d := Some newLink),
                subsTail := (subsTail s5)(d := Some newLink)\<rparr>)
      else
        (case subsTail s5 d of
           None \<Rightarrow> Inl TypeError
         | Some oldTail \<Rightarrow>
             Inr (s5\<lparr>prevSubOrUpdate := (prevSubOrUpdate s5)(newLink := Some oldTail),
                     nextSub := (nextSub s5)(oldTail := Some newLink),
                     subsTail := (subsTail s5)(d := Some newLink)\<rparr>)))"

definition link_reuse :: "ref \<Rightarrow> ref \<Rightarrow> ref \<Rightarrow> state \<Rightarrow> state" where
  \<comment> \<open>the \<open>else\<close> branch: the slot after the cursor already holds \<open>dep\<close>\<close>
  "link_reuse d sb ol s1 =
     s1\<lparr>link_depVersion := (link_depVersion s1)(ol := depVersion s1 d),
        depsTail := (depsTail s1)(sb := Some ol)\<rparr>"

definition link :: "ref \<Rightarrow> bool \<Rightarrow> state \<Rightarrow> error + state" where
  "link d allowScope s =
     (if activeSubsDepth s = 0 then Inr s
      else case activeSub s of
        None \<Rightarrow> Inl TypeError
      | Some sb \<Rightarrow>
          if \<not> allowScope \<and> isScope s sb then Inr s
          else
            let sv = versionOrDirtyLevel s sb in
            if subVersion s d = sv then Inr s
            else
              let s1 = s\<lparr>subVersion := (subVersion s)(d := sv)\<rparr>;
                  dt = depsTail s1 sb;
                  old = (case dt of Some t \<Rightarrow> nextDep s1 t | None \<Rightarrow> deps s1 sb)
              in
              case old of
                None \<Rightarrow> link_new d sb dt old s1
              | Some ol \<Rightarrow>
                  if dep s1 ol \<noteq> Some d then link_new d sb dt old s1
                  else Inr (link_reuse d sb ol s1))"

section \<open>namespace Subscriber: tracking sessions\<close>

definition preTrack :: "ref \<Rightarrow> state \<Rightarrow> state" where
  "preTrack sb s = s\<lparr>depsTail := (depsTail s)(sb := None)\<rparr>"

text \<open>\<open>Subscriber.startTrack\<close> returns \<open>lastActiveSub\<close> and the new store.\<close>

definition startTrack :: "ref \<Rightarrow> state \<Rightarrow> ref option \<times> state" where
  "startTrack sb s =
     (let lastActiveSub = activeSub s;
          s1 = s\<lparr>activeSub := Some sb\<rparr>;
          s2 = s1\<lparr>activeSubsDepth := increment (activeSubsDepth s1)\<rparr>;
          s3 = s2\<lparr>versionOrDirtyLevel := (versionOrDirtyLevel s2)(sb := system_subVersion s2),
                  system_subVersion := increment (system_subVersion s2)\<rparr>
      in (lastActiveSub, preTrack sb s3))"

section \<open>Propagation\<close>

text \<open>
  The two nested loops of \<open>Dependency.propagate\<close> run on the variables
  \<open>dep\<close>, \<open>link\<close>, \<open>dirtyLevel\<close> and \<open>depth\<close>. One iteration
  of either loop is one step: with a link at hand the body of the inner loop runs (and
  \<open>continue top\<close> re-enters the inner loop on the subscriber's list), without one
  the code after the inner loop runs and either resumes at the stashed link or leaves
  the outer loop. \<open>(dep as Dependency & Subscriber).deps\<close> reads
  \<open>undefined\<close> on an object without the property. Property reads on an undefined
  \<open>link.sub\<close>, \<open>sub.deps\<close> or \<open>dep\<close> are TypeErrors.
  The local variable \<open>depth\<close> goes up by one at a descent into a subscriber that
  was NotDirty and has just been raised, and no level goes down during the walk, so it
  never exceeds the number of subscriber objects in memory: it stays in the range where
  \<open>++\<close> and \<open>--\<close> are exact and is kept as an integer. The field
  \<open>dep.depVersion\<close> is not bounded in this way and takes \<open>increment\<close>.
\<close>

datatype ('c, 'r) outcome = Next 'c | Done "error + 'r"

definition enqueue :: "ref \<Rightarrow> state \<Rightarrow> state" where
  "enqueue sb s =
     (case queuedEffectsTail s of
        Some t \<Rightarrow> s\<lparr>nextNotify := (nextNotify s)(t := Some sb), queuedEffectsTail := Some sb\<rparr>
      | None \<Rightarrow> s\<lparr>queuedEffectsTail := Some sb, queuedEffects := Some sb\<rparr>)"

type_synonym pcfg = "state \<times> ref option \<times> ref option \<times> int \<times> int"

definition propagate_step :: "env \<Rightarrow> pcfg \<Rightarrow> (pcfg, state) outcome" where
  "propagate_step e c =
     (case c of (s, dp, lk, dirtyLevel, depth) \<Rightarrow>
        (case lk of
           Some l \<Rightarrow>
             (case sub s l of
                None \<Rightarrow> Done (Inl TypeError)
              | Some sb \<Rightarrow>
                  let subDirtyLevel = versionOrDirtyLevel s sb;
                      s1 = (if subDirtyLevel < dirtyLevel
                            then s\<lparr>versionOrDirtyLevel := (versionOrDirtyLevel s)(sb := dirtyLevel)\<rparr>
                            else s)
                  in
                  if subDirtyLevel = NotDirty \<and> has_subs e sb then
                    (case deps s1 sb of
                       None \<Rightarrow> Done (Inl TypeError)
                     | Some subDeps \<Rightarrow>
                         Next (s1\<lparr>prevPropagateOrNextReleased :=
                                    (prevPropagateOrNextReleased s1)(subDeps := Some l)\<rparr>,
                               Some sb, subs s1 sb, MaybeDirty, depth + 1))
                  else
                    let s2 = (if subDirtyLevel = NotDirty \<and> notify e sb \<noteq> None
                              then enqueue sb s1 else s1)
                    in Next (s2, dp, nextSub s2 l, dirtyLevel, depth))
         | None \<Rightarrow>
             (case dp of
                None \<Rightarrow> Done (Inl TypeError)
              | Some d \<Rightarrow>
                  (case (if has_deps e d then deps s d else None) of
                     None \<Rightarrow> Done (Inr s)
                   | Some depDeps \<Rightarrow>
                       (case prevPropagateOrNextReleased s depDeps of
                          None \<Rightarrow> Done (Inr s)
                        | Some prevLink \<Rightarrow>
                            let s1 = s\<lparr>prevPropagateOrNextReleased :=
                                         (prevPropagateOrNextReleased s)(depDeps := None)\<rparr>;
                                depth' = depth - 1;
                                dirtyLevel' = (if depth' = 0 then Dirty else dirtyLevel)
                            in
                            (case sub s1 prevLink of
                               None \<Rightarrow> Done (Inl TypeError)
                             | Some prevSub \<Rightarrow>
                                 Next ((if notify e prevSub \<noteq> None then enqueue prevSub s1 else s1),
                                       dep s1 prevLink, nextSub s1 prevLink, dirtyLevel', depth')))))))"

partial_function (option) propagate_loop :: "env \<Rightarrow> pcfg \<Rightarrow> (error + state) option" where
  "propagate_loop e c =
     (case propagate_step e c of Done r \<Rightarrow> Some r | Next c' \<Rightarrow> propagate_loop e c')"

definition propagate :: "env \<Rightarrow> ref \<Rightarrow> state \<Rightarrow> (error + state) option" where
  "propagate e d s =
     (let s1 = s\<lparr>depVersion := (depVersion s)(d := increment (depVersion s d))\<rparr>
      in propagate_loop e (s1, Some d, subs s1 d, Dirty, 0))"

text \<open>The configuration after \<open>k\<close> iterations (the last one, if the loop has ended).\<close>

fun propagate_steps :: "env \<Rightarrow> nat \<Rightarrow> pcfg \<Rightarrow> pcfg" where
  "propagate_steps e 0 c = c"
| "propagate_steps e (Suc k) c =
     (case propagate_step e c of Next c' \<Rightarrow> propagate_steps e k c' | Done r \<Rightarrow> c)"

section \<open>The shape of the graph and a recursive reading of the propagation walk\<close>

text \<open>
  \<open>chain nxt p ls\<close>: following the field \<open>nxt\<close> from the reference \<open>p\<close>
  passes through exactly the objects \<open>ls\<close> and ends at \<open>undefined\<close>.
\<close>

primrec chain :: "(ref \<Rightarrow> ref option) \<Rightarrow> ref option \<Rightarrow> ref list \<Rightarrow> bool" where
  "chain nxt p [] = (p = None)"
| "chain nxt p (l # ls) = (p = Some l \<and> chain nxt (nxt l) ls)"

text \<open>The level that the walk assigns at a depth.\<close>

definition lvl :: "nat \<Rightarrow> int" where
  "lvl k = (if k = 0 then Dirty else MaybeDirty)"

definition mark :: "ref \<Rightarrow> int \<Rightarrow> state \<Rightarrow> state" where
  "mark m dirtyLevel s =
     (if versionOrDirtyLevel s m < dirtyLevel
      then s\<lparr>versionOrDirtyLevel := (versionOrDirtyLevel s)(m := dirtyLevel)\<rparr> else s)"

text \<open>
  \<open>visit e d k s lk s'\<close>: the walk over the rest \<open>lk\<close> of the subscriber list of
  \<open>d\<close> at depth \<open>k\<close>, written as the recursive procedure that the loop unrolls.
  A subscriber that was NotDirty and has a subscriber list of its own is entered: the
  return link is stashed in the first link of its dependency list, its list is walked
  one level deeper, the stash is taken back and cleared, and an effect among such
  subscribers is queued at that moment. Every other subscriber is marked, queued if it
  is an effect that was NotDirty, and passed.
\<close>

inductive visit :: "env \<Rightarrow> ref \<Rightarrow> nat \<Rightarrow> state \<Rightarrow> ref option \<Rightarrow> state \<Rightarrow> bool"
  for e :: env where
  visit_end: "visit e d k s None s"
| visit_pass:
    "sub s l = Some m \<Longrightarrow>
     \<not> (versionOrDirtyLevel s m = NotDirty \<and> has_subs e m) \<Longrightarrow>
     s1 = mark m (lvl k) s \<Longrightarrow>
     s2 = (if versionOrDirtyLevel s m = NotDirty \<and> notify e m \<noteq> None then enqueue m s1 else s1) \<Longrightarrow>
     visit e d k s2 (nextSub s2 l) s' \<Longrightarrow>
     visit e d k s (Some l) s'"
| visit_descend:
    "sub s l = Some m \<Longrightarrow> dep s l = Some d \<Longrightarrow>
     versionOrDirtyLevel s m = NotDirty \<Longrightarrow> has_subs e m \<Longrightarrow> has_deps e m \<Longrightarrow>
     deps s m = Some l0 \<Longrightarrow>
     s1 = (mark m (lvl k) s)\<lparr>prevPropagateOrNextReleased :=
             (prevPropagateOrNextReleased s)(l0 := Some l)\<rparr> \<Longrightarrow>
     visit e m (Suc k) s1 (subs s1 m) s2 \<Longrightarrow>
     prevPropagateOrNextReleased s2 l0 = Some l \<Longrightarrow>
     s3 = s2\<lparr>prevPropagateOrNextReleased := (prevPropagateOrNextReleased s2)(l0 := None)\<rparr> \<Longrightarrow>
     s4 = (if notify e m \<noteq> None then enqueue m s3 else s3) \<Longrightarrow>
     visit e d k s4 (nextSub s4 l) s' \<Longrightarrow>
     visit e d k s (Some l) s'"

text \<open>
  A well-formed graph over the nodes \<open>N\<close>, with \<open>G n\<close> the links of the subscriber
  list of \<open>n\<close>: every list is a chain from \<open>subs\<close> through \<open>nextSub\<close>, its links
  have \<open>n\<close> as their dependency and a node of \<open>N\<close> that has the property
  \<open>deps\<close> as their subscriber.
\<close>

definition subs_ok :: "env \<Rightarrow> ref list \<Rightarrow> (ref \<Rightarrow> ref list) \<Rightarrow> state \<Rightarrow> bool" where
  "subs_ok e N G s \<longleftrightarrow>
     (\<forall>n \<in> set N. chain (nextSub s) (subs s n) (G n) \<and>
        (\<forall>l \<in> set (G n). dep s l = Some n \<and>
           (case sub s l of None \<Rightarrow> False | Some m \<Rightarrow> m \<in> set N \<and> has_deps e m)))"

text \<open>
  A NotDirty subscriber with a subscriber list of its own has a non-empty dependency
  list; the first link of that list is its own, and its scratch field is clear.
\<close>

definition slots_ok :: "env \<Rightarrow> ref list \<Rightarrow> state \<Rightarrow> bool" where
  "slots_ok e N s \<longleftrightarrow>
     (\<forall>m \<in> set N. has_subs e m \<and> has_deps e m \<and> versionOrDirtyLevel s m = NotDirty \<longrightarrow>
        (case deps s m of None \<Rightarrow> False
         | Some l0 \<Rightarrow> sub s l0 = Some m \<and> prevPropagateOrNextReleased s l0 = None))"

text \<open>The scratch field that the walk inspects when it is back at the changed dependency.\<close>

definition root_ok :: "env \<Rightarrow> state \<Rightarrow> ref \<Rightarrow> bool" where
  "root_ok e s d \<longleftrightarrow>
     (has_deps e d \<longrightarrow>
        (case deps s d of None \<Rightarrow> True | Some l0 \<Rightarrow> prevPropagateOrNextReleased s l0 = None))"

text \<open>
  The effect queue holds the effects \<open>q\<close>: a chain from \<open>queuedEffects\<close> through
  \<open>nextNotify\<close> whose last element is \<open>queuedEffectsTail\<close>. An effect of \<open>N\<close>
  outside the queue has no \<open>nextNotify\<close>, and a NotDirty effect is not queued.
\<close>

definition queue_ok :: "env \<Rightarrow> ref list \<Rightarrow> state \<Rightarrow> ref list \<Rightarrow> bool" where
  "queue_ok e N s q \<longleftrightarrow>
     chain (nextNotify s) (queuedEffects s) q \<and>
     queuedEffectsTail s = (if q = [] then None else Some (last q)) \<and>
     (\<forall>m \<in> set N. notify e m \<noteq> None \<longrightarrow>
        (m \<notin> set q \<longrightarrow> nextNotify s m = None) \<and>
        (versionOrDirtyLevel s m = NotDirty \<longrightarrow> m \<notin> set q))"

text \<open>
  \<open>reach e G s d k m\<close>: the subscriber \<open>m\<close> is met at depth \<open>k\<close> on a path from
  \<open>d\<close>: a direct subscriber at depth 0, below that a subscriber of a met node that has
  a subscriber list and is NotDirty in \<open>s\<close>.
\<close>

inductive reach :: "env \<Rightarrow> (ref \<Rightarrow> ref list) \<Rightarrow> state \<Rightarrow> ref \<Rightarrow> nat \<Rightarrow> ref \<Rightarrow> bool"
  for e :: env and G :: "ref \<Rightarrow> ref list" and s :: state and d :: ref where
  reach_direct: "l \<in> set (G d) \<Longrightarrow> sub s l = Some m \<Longrightarrow> reach e G s d 0 m"
| reach_deeper:
    "reach e G s d k n \<Longrightarrow> has_subs e n \<Longrightarrow> versionOrDirtyLevel s n = NotDirty \<Longrightarrow>
     l \<in> set (G n) \<Longrightarrow> sub s l = Some m \<Longrightarrow> reach e G s d (Suc k) m"

text \<open>The remaining work of a walk, which every step decreases.\<close>

definition work :: "env \<Rightarrow> ref list \<Rightarrow> (ref \<Rightarrow> ref list) \<Rightarrow> state \<Rightarrow> nat" where
  "work e N G s =
     sum_list (map (\<lambda>m. if has_subs e m \<and> versionOrDirtyLevel s m = NotDirty
                         then Suc (length (G m)) else 0) N)"

text \<open>No level has gone down, and no level has become NotDirty.\<close>

definition raised :: "state \<Rightarrow> state \<Rightarrow> bool" where
  "raised s s' \<longleftrightarrow>
     (\<forall>m. versionOrDirtyLevel s m \<le> versionOrDirtyLevel s' m \<and>
          (versionOrDirtyLevel s' m = NotDirty \<longrightarrow> versionOrDirtyLevel s m = NotDirty))"

text \<open>The fields that the walk writes; everything else is as before.\<close>

definition walk_frame :: "state \<Rightarrow> state \<Rightarrow> bool" where
  "walk_frame s s' \<longleftrightarrow>
     (\<exists>lv sc nn qh qt.
        s' = s\<lparr>versionOrDirtyLevel := lv, prevPropagateOrNextReleased := sc, nextNotify := nn,
               queuedEffects := qh, queuedEffectsTail := qt\<rparr>)"

text \<open>The effects of \<open>N\<close> that were NotDirty in \<open>s\<close> and are not in \<open>s'\<close>.\<close>

definition fresh_effects :: "env \<Rightarrow> ref list \<Rightarrow> state \<Rightarrow> state \<Rightarrow> ref set" where
  "fresh_effects e N s s' =
     {m \<in> set N. notify e m \<noteq> None \<and> versionOrDirtyLevel s m = NotDirty \<and>
                 versionOrDirtyLevel s' m \<noteq> NotDirty}"

section \<open>Batches and the effect queue\<close>

definition startBatch :: "state \<Rightarrow> state" where
  "startBatch s = s\<lparr>batchDepth := increment (batchDepth s)\<rparr>"

text \<open>
  The loop of \<open>System.endBatch\<close>: pop the head of the queue, then call its
  \<open>notify\<close>. Calling a missing method is a TypeError; an error thrown by the
  method leaves the loop.
\<close>

partial_function (option) endBatch_loop :: "env \<Rightarrow> state \<Rightarrow> (error + state) option" where
  "endBatch_loop e s =
     (if batchDepth s = 0 then
        (case queuedEffects s of
           None \<Rightarrow> Some (Inr s)
         | Some effect \<Rightarrow>
             (let s1 = (case nextNotify s effect of
                          Some queuedNext \<Rightarrow>
                            s\<lparr>nextNotify := (nextNotify s)(effect := None),
                               queuedEffects := Some queuedNext\<rparr>
                        | None \<Rightarrow> s\<lparr>queuedEffects := None, queuedEffectsTail := None\<rparr>)
              in case notify e effect of
                   None \<Rightarrow> Some (Inl TypeError)
                 | Some f \<Rightarrow>
                     (case call f (Notify effect) s1 of
                        Inl er \<Rightarrow> Some (Inl er)
                      | Inr s2 \<Rightarrow> endBatch_loop e s2)))
      else Some (Inr s))"

definition endBatch :: "env \<Rightarrow> state \<Rightarrow> (error + state) option" where
  "endBatch e s = endBatch_loop e (s\<lparr>batchDepth := decrement (batchDepth s)\<rparr>)"

text \<open>
  A method that returns normally and leaves the batch depth, the effect queue and the
  record of calls as they are: it neither writes a dependency nor runs a batch.
\<close>

definition quiet :: "(state \<Rightarrow> error + state) \<Rightarrow> bool" where
  "quiet f \<longleftrightarrow>
     (\<forall>s. case f s of
            Inl er \<Rightarrow> False
          | Inr s' \<Rightarrow> batchDepth s' = batchDepth s \<and> queuedEffects s' = queuedEffects s \<and>
                     queuedEffectsTail s' = queuedEffectsTail s \<and>
                     nextNotify s' = nextNotify s \<and> trace s' = trace s)"

section \<open>Subscriber lists as doubly-linked lists\<close>

text \<open>
  \<open>back_chain prv p ls\<close>: in the list \<open>ls\<close> the field \<open>prv\<close> of every object is
  its predecessor, and that of the first one is \<open>p\<close>.
\<close>

primrec back_chain :: "(ref \<Rightarrow> ref option) \<Rightarrow> ref option \<Rightarrow> ref list \<Rightarrow> bool" where
  "back_chain prv p [] = True"
| "back_chain prv p (l # ls) = (prv l = p \<and> back_chain prv (Some l) ls)"

text \<open>
  The subscriber list of the dependency \<open>d\<close> is \<open>ls\<close>: forwards from \<open>subs\<close>
  through \<open>nextSub\<close>, backwards through \<open>prevSubOrUpdate\<close>.
\<close>

definition subs_list :: "state \<Rightarrow> ref \<Rightarrow> ref list \<Rightarrow> bool" where
  "subs_list s d ls \<longleftrightarrow>
     chain (nextSub s) (subs s d) ls \<and> back_chain (prevSubOrUpdate s) None ls"

text \<open>A \<open>notifyLostSubs\<close> method that returns normally and calls nothing itself.\<close>

definition returns_silently :: "(state \<Rightarrow> error + state) \<Rightarrow> bool" where
  "returns_silently f \<longleftrightarrow>
     (\<forall>s. case f s of Inl er \<Rightarrow> False | Inr s' \<Rightarrow> trace s' = trace s)"

section \<open>Ending a tracking session\<close>

text \<open>
  The loop of \<open>Link.releaseDeps\<close> on its variables \<open>toBreak\<close> and
  \<open>nextDep\<close>.
\<close>

partial_function (option) releaseDeps_loop ::
    "env \<Rightarrow> state \<times> ref \<times> ref option \<Rightarrow> (error + state) option" where
  "releaseDeps_loop e c =
     (case c of (s, toBreak, nd) \<Rightarrow>
        (case nd of
           None \<Rightarrow> Some (Inr s)
         | Some n \<Rightarrow>
             (let s1 = s\<lparr>nextDep := (nextDep s)(toBreak := None)\<rparr>;
                  nextNext = nextDep s1 n
              in case release e n s1 of
                   Inl er \<Rightarrow> Some (Inl er)
                 | Inr s2 \<Rightarrow> releaseDeps_loop e (s2, n, nextNext))))"

definition releaseDeps :: "env \<Rightarrow> ref \<Rightarrow> state \<Rightarrow> (error + state) option" where
  "releaseDeps e toBreak s = releaseDeps_loop e (s, toBreak, nextDep s toBreak)"

text \<open>
  \<open>postTrack\<close>. In its second branch \<open>sub.deps\<close> is read again for the call of
  \<open>Link.release\<close>; releasing \<open>undefined\<close> is a TypeError.
\<close>

definition postTrack :: "env \<Rightarrow> ref \<Rightarrow> state \<Rightarrow> (error + state) option" where
  "postTrack e sb s =
     (case depsTail s sb of
        Some t \<Rightarrow> releaseDeps e t s
      | None \<Rightarrow>
          (case deps s sb of
             None \<Rightarrow> Some (Inr s)
           | Some dl \<Rightarrow>
               (case releaseDeps e dl s of
                  None \<Rightarrow> None
                | Some (Inl er) \<Rightarrow> Some (Inl er)
                | Some (Inr s1) \<Rightarrow>
                    (case deps s1 sb of
                       None \<Rightarrow> Some (Inl TypeError)
                     | Some dl1 \<Rightarrow>
                         (case release e dl1 s1 of
                            Inl er \<Rightarrow> Some (Inl er)
                          | Inr s2 \<Rightarrow> Some (Inr (s2\<lparr>deps := (deps s2)(sb := None)\<rparr>)))))))"

definition endTrack :: "env \<Rightarrow> ref \<Rightarrow> ref option \<Rightarrow> state \<Rightarrow> (error + state) option" where
  "endTrack e sb lastActiveSub s =
     (case postTrack e sb s of
        None \<Rightarrow> None
      | Some (Inl er) \<Rightarrow> Some (Inl er)
      | Some (Inr s1) \<Rightarrow>
          Some (Inr (s1\<lparr>versionOrDirtyLevel := (versionOrDirtyLevel s1)(sb := NotDirty),
                         activeSubsDepth := decrement (activeSubsDepth s1),
                         activeSub := lastActiveSub\<rparr>)))"

definition clearTrack :: "env \<Rightarrow> ref \<Rightarrow> state \<Rightarrow> (error + state) option" where
  "clearTrack e sb s = postTrack e sb (preTrack sb s)"

text \<open>The reads of one run of a subscriber's body, in order: each calls \<open>Dependency.link\<close>.\<close>

fun reads :: "(ref \<times> bool) list \<Rightarrow> state \<Rightarrow> error + state" where
  "reads [] s = Inr s"
| "reads ((d, allowScope) # rs) s =
     (case link d allowScope s of Inl er \<Rightarrow> Inl er | Inr s' \<Rightarrow> reads rs s')"

text \<open>
  A \<open>notifyLostSubs\<close> method that returns normally and leaves the endpoints of all links
  and all dependency lists as they are.
\<close>

definition keeps_links :: "(state \<Rightarrow> error + state) \<Rightarrow> bool" where
  "keeps_links f \<longleftrightarrow>
     (\<forall>s. case f s of
            Inl er \<Rightarrow> False
          | Inr s' \<Rightarrow> dep s' = dep s \<and> sub s' = sub s \<and> nextDep s' = nextDep s \<and>
                     deps s' = deps s)"

text \<open>
  The store in the middle of a tracking session of the subscriber \<open>A\<close> with stamp
  \<open>v\<close>. The dependency list of \<open>A\<close> is \<open>confirmed @ rest\<close>: the links up to
  the cursor \<open>depsTail\<close>, one for each dependency read in this session so far, then
  the links of the previous run that no read has reached. A dependency carries the
  stamp exactly if this session has read it. \<open>P\<close> is the pool, a chain through the
  scratch field of links that are in no list and have no \<open>nextDep\<close>; every link in
  use is below \<open>next_link\<close>; a non-empty subscriber list has a tail.
\<close>

definition session_inv ::
    "ref \<Rightarrow> int \<Rightarrow> state \<Rightarrow> ref list \<Rightarrow> ref list \<Rightarrow> ref list \<Rightarrow> bool" where
  "session_inv A v s confirmed rest P \<longleftrightarrow>
     activeSub s = Some A \<and> activeSubsDepth s \<noteq> 0 \<and> versionOrDirtyLevel s A = v \<and>
     chain (nextDep s) (deps s A) (confirmed @ rest) \<and>
     depsTail s A = (if confirmed = [] then None else Some (last confirmed)) \<and>
     distinct (map (dep s) confirmed) \<and>
     (\<forall>l \<in> set (confirmed @ rest). dep s l \<noteq> None \<and> sub s l = Some A) \<and>
     (\<forall>d. subVersion s d = v \<longleftrightarrow> Some d \<in> dep s ` set confirmed) \<and>
     chain (prevPropagateOrNextReleased s) (pool s) P \<and>
     set P \<inter> set (confirmed @ rest) = {} \<and>
     (\<forall>p \<in> set P. nextDep s p = None) \<and>
     (\<forall>l \<in> set (confirmed @ rest) \<union> set P. l < next_link s) \<and>
     (\<forall>d. subs s d \<noteq> None \<longrightarrow> subsTail s d \<noteq> None)"

section \<open>Lazy resolution\<close>






text \<open>
  A method of the node \<open>d\<close> that returns normally, leaves every link, every list head
  and the record of calls as they are, and changes no dirty level but that of \<open>d\<close>
  itself.
\<close>

definition steady :: "ref \<Rightarrow> (state \<Rightarrow> error + state) \<Rightarrow> bool" where
  "steady d f \<longleftrightarrow>
     (\<forall>x. case f x of
            Inl er \<Rightarrow> False
          | Inr y \<Rightarrow> dep y = dep x \<and> sub y = sub x \<and> nextDep y = nextDep x \<and>
                    deps y = deps x \<and> subs y = subs x \<and>
                    prevSubOrUpdate y = prevSubOrUpdate x \<and> trace y = trace x \<and>
                    (\<forall>n. n \<noteq> d \<longrightarrow> versionOrDirtyLevel y n = versionOrDirtyLevel x n))"

text \<open>
  A well-formed acyclic graph over the nodes \<open>N\<close>, with \<open>Dp n\<close> the links of the
  dependency list of \<open>n\<close>: every list is a chain from \<open>deps\<close> through
  \<open>nextDep\<close>; its links have \<open>n\<close> as their subscriber and a node of \<open>N\<close> of lower
  rank as their dependency; a dependency that is a derived node has a non-empty
  subscriber list.
\<close>

definition deps_ok ::
    "env \<Rightarrow> ref list \<Rightarrow> (ref \<Rightarrow> ref list) \<Rightarrow> (ref \<Rightarrow> nat) \<Rightarrow> state \<Rightarrow> bool" where
  "deps_ok e N Dp rank s \<longleftrightarrow>
     (\<forall>n \<in> set N. chain (nextDep s) (deps s n) (Dp n) \<and>
        (\<forall>l \<in> set (Dp n). sub s l = Some n \<and>
           (case dep s l of
              None \<Rightarrow> False
            | Some d \<Rightarrow> d \<in> set N \<and> rank d < rank n \<and>
                (has_deps e d \<and> update e d \<noteq> None \<longrightarrow> has_subs e d \<and> subs s d \<noteq> None))))"

text \<open>
  The first link of every subscriber list has the list's dependency as its dependency
  and no predecessor.
\<close>

definition heads_ok :: "ref list \<Rightarrow> state \<Rightarrow> bool" where
  "heads_ok N s \<longleftrightarrow>
     (\<forall>d \<in> set N. case subs s d of
                     None \<Rightarrow> True
                   | Some h \<Rightarrow> dep s h = Some d \<and> prevSubOrUpdate s h = None)"


text \<open>The two stores have the same links and list heads.\<close>

definition same_links :: "state \<Rightarrow> state \<Rightarrow> bool" where
  "same_links s s' \<longleftrightarrow>
     dep s' = dep s \<and> sub s' = sub s \<and> nextDep s' = nextDep s \<and> deps s' = deps s \<and>
     subs s' = subs s"

text \<open>
  \<open>kept d x y\<close>: what a recomputation of the node \<open>d\<close> leaves as it is, as far
  as the walk reads it: the links and list heads, the stash slots, every
  \<open>depVersion\<close>, the record of calls, and the dirty level of every node but
  \<open>d\<close>.
\<close>

definition kept :: "ref \<Rightarrow> state \<Rightarrow> state \<Rightarrow> bool" where
  "kept d x y \<longleftrightarrow>
     same_links x y \<and> prevSubOrUpdate y = prevSubOrUpdate x \<and> depVersion y = depVersion x \<and>
     trace y = trace x \<and> (\<forall>n. n \<noteq> d \<longrightarrow> versionOrDirtyLevel y n = versionOrDirtyLevel x n)"

text \<open>
  The \<open>update\<close> method of a derived node \<open>d\<close> is outside the engine. What is
  asked of it, on a store where \<open>d\<close> is Dirty: it recomputes, which keeps the above,
  and then either returns, or (the value has changed) runs \<open>propagate\<close> from
  \<open>d\<close> and returns what that returns; an update whose \<open>propagate\<close> does not
  return does not return normally.
\<close>

definition recomputes :: "ref \<Rightarrow> (state \<Rightarrow> error + state) \<Rightarrow> bool" where
  "recomputes d f \<longleftrightarrow>
     (\<forall>x. versionOrDirtyLevel x d = Dirty \<longrightarrow>
        (\<exists>x1 e'. kept d x x1 \<and>
           (f x = Inr x1 \<or>
            (case propagate e' d x1 of Some r \<Rightarrow> f x = r | None \<Rightarrow> f x = Inl Thrown))))"

text \<open>
  On a store with the version numbers \<open>dv\<close> where \<open>d\<close> is Dirty, the update of
  \<open>d\<close>, when it returns, has left the \<open>depVersion\<close> of \<open>d\<close> as it is.
\<close>

definition keeps_depVersion ::
    "(ref \<Rightarrow> int) \<Rightarrow> ref \<Rightarrow> (state \<Rightarrow> error + state) \<Rightarrow> bool" where
  "keeps_depVersion dv d f \<longleftrightarrow>
     (\<forall>x y. versionOrDirtyLevel x d = Dirty \<and> depVersion x = dv \<and> f x = Inr y \<longrightarrow>
        depVersion y d = dv d)"


section \<open>Example stores\<close>

text \<open>
  Subscriber 0 is in a tracking session (stamp 3, cursor before the first slot). Its
  dependency list from the previous run is the single link 0, to dependency 1.
\<close>

definition ex_stale :: state where
  "ex_stale = empty_state\<lparr>
     dep := (\<lambda>_. None)(0 := Some 1), sub := (\<lambda>_. None)(0 := Some 0),
     subs := (\<lambda>_. None)(1 := Some 0), subsTail := (\<lambda>_. None)(1 := Some 0),
     deps := (\<lambda>_. None)(0 := Some 0),
     versionOrDirtyLevel := (\<lambda>_. 0)(0 := 3), system_subVersion := 4,
     activeSub := Some 0, activeSubsDepth := 1, next_link := 1\<rparr>"

text \<open>The initial system with the counter \<open>System.subVersion\<close> at \<open>2^53\<close>.\<close>

definition ex_counter_max :: state where
  "ex_counter_max = (init_system empty_state)\<lparr>system_subVersion := 2 ^ 53\<rparr>"

text \<open>
  A diamond: source 0, derived nodes 1 and 2, and the effect 3 that reads both. Links
  0 and 1 lead from the source to the derived nodes, links 2 and 3 from these to the
  effect. Every node is NotDirty.
\<close>

definition quiet_cb :: "state \<Rightarrow> error + state" where
  \<comment> \<open>a method that returns without touching the store\<close>
  "quiet_cb s = Inr s"

definition ex_env :: env where
  "ex_env = \<lparr>has_subs = (\<lambda>n. n \<in> {0, 1, 2}), has_deps = (\<lambda>n. n \<in> {1, 2, 3}),
     notify = (\<lambda>_. None)(3 := Some quiet_cb),
     update = (\<lambda>_. None)(1 := Some quiet_cb, 2 := Some quiet_cb),
     notifyLostSubs = (\<lambda>_. None)\<rparr>"

definition ex_diamond :: state where
  "ex_diamond = empty_state\<lparr>
     dep := (\<lambda>_. None)(0 := Some 0, 1 := Some 0, 2 := Some 1, 3 := Some 2),
     sub := (\<lambda>_. None)(0 := Some 1, 1 := Some 2, 2 := Some 3, 3 := Some 3),
     prevSubOrUpdate := (\<lambda>_. None)(1 := Some 0),
     nextSub := (\<lambda>_. None)(0 := Some 1),
     nextDep := (\<lambda>_. None)(2 := Some 3),
     subs := (\<lambda>_. None)(0 := Some 0, 1 := Some 2, 2 := Some 3),
     subsTail := (\<lambda>_. None)(0 := Some 1, 1 := Some 2, 2 := Some 3),
     deps := (\<lambda>_. None)(1 := Some 0, 2 := Some 1, 3 := Some 2),
     depsTail := (\<lambda>_. None)(1 := Some 0, 2 := Some 1, 3 := Some 3),
     next_link := 4\<rparr>"

text \<open>
  The chain source 0, derived 1, derived 2, effect 3, with link \<open>i\<close> from node
  \<open>i\<close> to node \<open>i + 1\<close>; every node is NotDirty.
\<close>

definition ex_chain :: state where
  "ex_chain = empty_state\<lparr>
     dep := (\<lambda>_. None)(0 := Some 0, 1 := Some 1, 2 := Some 2),
     sub := (\<lambda>_. None)(0 := Some 1, 1 := Some 2, 2 := Some 3),
     subs := (\<lambda>_. None)(0 := Some 0, 1 := Some 1, 2 := Some 2),
     subsTail := (\<lambda>_. None)(0 := Some 0, 1 := Some 1, 2 := Some 2),
     deps := (\<lambda>_. None)(1 := Some 0, 2 := Some 1, 3 := Some 2),
     depsTail := (\<lambda>_. None)(1 := Some 0, 2 := Some 1, 3 := Some 2),
     next_link := 3\<rparr>"


text \<open>The subscriber lists of the diamond.\<close>

definition ex_diamond_G :: "ref \<Rightarrow> ref list" where
  "ex_diamond_G = (\<lambda>_. [])(0 := [0, 1], 1 := [2], 2 := [3])"

text \<open>The same nodes, each with a \<open>notifyLostSubs\<close> method.\<close>

definition ex_env_lost :: env where
  "ex_env_lost = ex_env\<lparr>notifyLostSubs := (\<lambda>_. Some quiet_cb)\<rparr>"

text \<open>
  Subscriber 0 reads dependency 5; then subscriber 1 runs a nested session that reads
  dependency 5 too and ends; then subscriber 0, active again, reads dependency 5 once
  more and ends its session.
\<close>

definition ex_reread1 :: state where
  "ex_reread1 = projr (link 5 True (snd (startTrack 0 empty_state)))"

definition ex_reread2 :: state where
  "ex_reread2 = projr (link 5 True (snd (startTrack 1 ex_reread1)))"

definition ex_reread3 :: state where
  "ex_reread3 = projr (the (endTrack ex_env 1 (Some 0) ex_reread2))"

definition ex_reread4 :: state where
  "ex_reread4 = projr (link 5 True ex_reread3)"

definition ex_reread5 :: state where
  "ex_reread5 = projr (the (endTrack ex_env 0 None ex_reread4))"

text \<open>
  The update of a derived node whose recomputed value is the old one: the node becomes
  NotDirty and nothing is propagated.
\<close>

definition settle :: "ref \<Rightarrow> state \<Rightarrow> error + state" where
  "settle d s = Inr (s\<lparr>versionOrDirtyLevel := (versionOrDirtyLevel s)(d := NotDirty)\<rparr>)"


definition ex_chain_dirty :: state where
  "ex_chain_dirty = ex_chain\<lparr>versionOrDirtyLevel := (\<lambda>_. NotDirty)(1 := Dirty, 2 := MaybeDirty)\<rparr>"

definition ex_chain_Dp :: "ref \<Rightarrow> ref list" where
  "ex_chain_Dp = (\<lambda>_. [])(1 := [0], 2 := [1], 3 := [2])"

text \<open>
  The same chain after many changes of node 1: the \<open>depVersion\<close> of node 1 is
  \<open>2^53\<close>, and so is the copy on link 1, taken when node 2 last read node 1. The
  source 0 has changed since node 1 read it. The update of node 1 finds a changed value:
  it sets node 1 to NotDirty and runs \<open>propagate\<close> from node 1.
\<close>

definition ex_changed_update :: "state \<Rightarrow> error + state" where
  "ex_changed_update s =
     (case propagate ex_env 1
             (s\<lparr>versionOrDirtyLevel := (versionOrDirtyLevel s)(1 := NotDirty)\<rparr>) of
        Some r \<Rightarrow> r
      | None \<Rightarrow> Inl Thrown)"

definition ex_changed_env :: env where
  "ex_changed_env =
     ex_env\<lparr>update := (\<lambda>_. None)(1 := Some ex_changed_update, 2 := Some (settle 2))\<rparr>"

definition ex_chain_max :: state where
  "ex_chain_max = ex_chain_dirty\<lparr>depVersion := (\<lambda>_. 0)(0 := 1, 1 := 2 ^ 53),
     link_depVersion := (\<lambda>_. 0)(1 := 2 ^ 53)\<rparr>"


text \<open>
  A run of the engine from the diamond that leaves the effect 3 NotDirty and queued:
  \<open>propagate\<close> from node 1 queues the effect; then the effect runs a tracking
  session that reads nodes 1 and 2, and \<open>endTrack\<close> sets it to NotDirty. Then one
  batch: \<open>startBatch\<close>, \<open>propagate\<close> from 1, \<open>propagate\<close> from 2,
  \<open>endBatch\<close>.
\<close>

definition ex_requeue1 :: state where
  "ex_requeue1 = projr (the (propagate ex_env 1 ex_diamond))"

definition ex_requeue2 :: state where
  "ex_requeue2 = projr (link 1 True (snd (startTrack 3 ex_requeue1)))"

definition ex_requeue3 :: state where
  "ex_requeue3 = projr (link 2 True ex_requeue2)"

definition ex_requeue4 :: state where
  "ex_requeue4 = projr (the (endTrack ex_env 3 None ex_requeue3))"

definition ex_requeue5 :: state where
  "ex_requeue5 = projr (the (propagate ex_env 1 (startBatch ex_requeue4)))"

definition ex_requeue6 :: state where
  "ex_requeue6 = projr (the (propagate ex_env 2 ex_requeue5))"

definition ex_requeue7 :: state where
  "ex_requeue7 = projr (the (endBatch ex_env ex_requeue6))"

text \<open>
  Sources 0 and 1 and the effects 2, 3 and 4. Source 0 has the subscribers 2, 3 and 4
  (links 0, 1, 2), source 1 the subscriber 2 (link 3). Every node is NotDirty; the effect
  3 is queued, the effect 2 is not. Then one batch: \<open>startBatch\<close>,
  \<open>propagate\<close> from 0, \<open>propagate\<close> from 1, \<open>endBatch\<close>.
\<close>

definition ex_effects_env :: env where
  "ex_effects_env = \<lparr>has_subs = (\<lambda>n. n \<in> {0, 1}), has_deps = (\<lambda>n. n \<in> {2, 3, 4}),
     notify = (\<lambda>_. None)(2 := Some quiet_cb, 3 := Some quiet_cb, 4 := Some quiet_cb),
     update = (\<lambda>_. None), notifyLostSubs = (\<lambda>_. None)\<rparr>"

definition ex_lost :: state where
  "ex_lost = empty_state\<lparr>
     dep := (\<lambda>_. None)(0 := Some 0, 1 := Some 0, 2 := Some 0, 3 := Some 1),
     sub := (\<lambda>_. None)(0 := Some 2, 1 := Some 3, 2 := Some 4, 3 := Some 2),
     prevSubOrUpdate := (\<lambda>_. None)(1 := Some 0, 2 := Some 1),
     nextSub := (\<lambda>_. None)(0 := Some 1, 1 := Some 2),
     nextDep := (\<lambda>_. None)(0 := Some 3),
     subs := (\<lambda>_. None)(0 := Some 0, 1 := Some 3),
     subsTail := (\<lambda>_. None)(0 := Some 2, 1 := Some 3),
     deps := (\<lambda>_. None)(2 := Some 0, 3 := Some 1, 4 := Some 2),
     depsTail := (\<lambda>_. None)(2 := Some 3, 3 := Some 1, 4 := Some 2),
     queuedEffects := Some 3, queuedEffectsTail := Some 3,
     next_link := 4\<rparr>"

definition ex_lost1 :: state where
  "ex_lost1 = projr (the (propagate ex_effects_env 0 (startBatch ex_lost)))"

definition ex_lost2 :: state where
  "ex_lost2 = projr (the (propagate ex_effects_env 1 ex_lost1))"

definition ex_lost3 :: state where
  "ex_lost3 = projr (the (endBatch ex_effects_env ex_lost2))"

section \<open>The increment and decrement of a double\<close>

lemma increment_exact: "- (2 ^ 53) \<le> x \<Longrightarrow> x < 2 ^ 53 \<Longrightarrow> increment x = x + 1"
  by (simp add: increment_def)

lemma decrement_exact: "- (2 ^ 53) < x \<Longrightarrow> x \<le> 2 ^ 53 \<Longrightarrow> decrement x = x - 1"
  by (simp add: decrement_def increment_def)

lemma increment_stalls: "increment (2 ^ 53) = 2 ^ 53"
  by (simp add: increment_def)

lemma increment_ge: "0 \<le> x \<Longrightarrow> x \<le> increment x"
  by (simp add: increment_def)


lemma increment_le: "increment x \<le> x + 2"
  by (simp add: increment_def)

text \<open>A batch depth that has been incremented returns to 0 only from 0.\<close>

lemma decrement_increment_zero: "decrement (increment x) = 0 \<longleftrightarrow> x = 0"
proof -
  consider (exact) "- (2 ^ 53) \<le> x" "x < 2 ^ 53" | (high) "2 ^ 53 \<le> x" | (low) "x < - (2 ^ 53)"
    by linarith
  then show ?thesis
  proof cases
    case exact
    then have "increment x = x + 1" by (simp add: increment_exact)
    moreover have "decrement (x + 1) = x" using exact by (simp add: decrement_exact)
    ultimately show ?thesis by simp
  next
    case high
    let ?y = "increment x"
    have y: "2 ^ 53 \<le> ?y" using increment_ge[of x] high by simp
    have "decrement ?y \<noteq> 0"
    proof (cases "?y = 2 ^ 53")
      case True
      then show ?thesis by (simp add: decrement_exact)
    next
      case False
      with y have "2 ^ 53 < ?y" by simp
      then have "increment (- ?y) < 0"
        unfolding increment_def[of "- ?y"] by (simp split: if_splits)
      then show ?thesis by (simp add: decrement_def)
    qed
    moreover have "x \<noteq> 0" using high by simp
    ultimately show ?thesis by simp
  next
    case low
    let ?y = "increment x"
    have "?y \<le> x + 2" by (rule increment_le)
    with low have y: "?y < 0" by simp
    then have "0 \<le> - ?y" by simp
    from increment_ge[OF this] y have "0 < increment (- ?y)" by simp
    then have "decrement ?y \<noteq> 0" by (simp add: decrement_def)
    moreover have "x \<noteq> 0" using low by simp
    ultimately show ?thesis by simp
  qed
qed

section \<open>Properties of \<open>Dependency.link\<close>\<close>

lemma link_new_result:
  assumes "subs s1 d \<noteq> None \<longrightarrow> subsTail s1 d \<noteq> None"
      and "nl = (case pool s1 of Some p \<Rightarrow> p | None \<Rightarrow> next_link s1)"
  shows "\<exists>s'. link_new d sb dt old s1 = Inr s' \<and> depsTail s' sb = Some nl \<and> dep s' nl = Some d
            \<and> sub s' nl = Some sb
            \<and> link_depVersion s' nl = depVersion s1 d \<and> depVersion s' = depVersion s1
            \<and> subsTail s' d = Some nl
            \<and> (subs s1 d = None \<longrightarrow> subs s' d = Some nl)
            \<and> (\<forall>t. subs s1 d \<noteq> None \<and> subsTail s1 d = Some t \<longrightarrow>
                   subs s' d = subs s1 d \<and> nextSub s' t = Some nl)
            \<and> (dt = None \<longrightarrow> deps s' sb = Some nl)
            \<and> (\<forall>t. dt = Some t \<and> t \<noteq> nl \<longrightarrow> nextDep s' t = Some nl)
            \<and> pool s' = (case pool s1 of Some p \<Rightarrow> prevPropagateOrNextReleased s1 p | None \<Rightarrow> None)
            \<and> (\<forall>ol. old = Some ol \<and> dt \<noteq> Some nl \<longrightarrow> nextDep s' nl = Some ol)
            \<and> (\<forall>ol. ol \<noteq> nl \<longrightarrow> dep s' ol = dep s1 ol \<and> sub s' ol = sub s1 ol
                   \<and> prevPropagateOrNextReleased s' ol = prevPropagateOrNextReleased s1 ol)"
  using assms
  by (cases "pool s1"; cases old; cases dt; cases "subs s1 d"; cases "subsTail s1 d")
     (simp_all add: link_new_def Link_get_def Let_def)

lemma link_reuse_result:
  assumes "dep s1 ol = Some d"
  shows "depsTail (link_reuse d sb ol s1) sb = Some ol \<and> dep (link_reuse d sb ol s1) ol = Some d
       \<and> link_depVersion (link_reuse d sb ol s1) ol = depVersion s1 d
       \<and> depVersion (link_reuse d sb ol s1) = depVersion s1"
  using assms by (simp add: link_reuse_def)

lemma link_unfold:
  assumes "activeSubsDepth s \<noteq> 0" and "activeSub s = Some sb"
    and "allowScope \<or> \<not> isScope s sb"
    and "subVersion s d \<noteq> versionOrDirtyLevel s sb"
  shows "link d allowScope s =
     (let s1 = s\<lparr>subVersion := (subVersion s)(d := versionOrDirtyLevel s sb)\<rparr>;
          old = (case depsTail s sb of Some t \<Rightarrow> nextDep s t | None \<Rightarrow> deps s sb)
      in case old of
           None \<Rightarrow> link_new d sb (depsTail s sb) old s1
         | Some ol \<Rightarrow> if dep s ol \<noteq> Some d then link_new d sb (depsTail s sb) old s1
                      else Inr (link_reuse d sb ol s1))"
  using assms by (auto simp: link_def Let_def split: option.splits)

text \<open>
  Claim C8. \<open>Dependency.link\<close> called when no tracking session is active
  (\<open>activeSubsDepth\<close> is 0), or when the active subscriber is scope-marked and
  \<open>allowScope\<close> is false, returns normally and leaves the whole store as it was:
  the dependency, every subscriber, every link, the pool and the System variables.
\<close>

theorem link_noop:
  assumes "activeSubsDepth s = 0 \<or> (\<exists>sb. activeSub s = Some sb \<and> isScope s sb \<and> \<not> allowScope)"
  shows "link d allowScope s = Inr s"
  using assms by (auto simp: link_def)

theorem link_noop_witness:
  "activeSubsDepth empty_state = 0 \<and> link 1 True empty_state = Inr empty_state \<and>
   (let s = empty_state\<lparr>activeSub := Some 0, activeSubsDepth := 1, isScope := (\<lambda>_. False)(0 := True)\<rparr>
    in activeSub s = Some 0 \<and> isScope s 0 \<and> link 1 False s = Inr s)"
proof -
  let ?s = "empty_state\<lparr>activeSub := Some 0, activeSubsDepth := 1, isScope := (\<lambda>_. False)(0 := True)\<rparr>"
  have a: "activeSubsDepth empty_state = 0" by (simp add: empty_state_def)
  have b: "activeSub ?s = Some 0 \<and> isScope ?s 0 \<and> \<not> False" by simp
  show ?thesis
    using link_noop[of empty_state True 1] link_noop[of ?s False 1] a b
    by (simp add: Let_def)
qed

text \<open>
  Claim C10. When \<open>Dependency.link\<close> gets past its guards, it returns with the
  cursor \<open>sub.depsTail\<close> on a link to the dependency whose stored
  \<open>depVersion\<close> is the dependency's current \<open>depVersion\<close>, in the branch
  that installs a new link and in the branch that reuses the link after the cursor.
\<close>

theorem link_records_depVersion:
  assumes "activeSubsDepth s \<noteq> 0" and "activeSub s = Some sb"
    and "allowScope \<or> \<not> isScope s sb"
    and "subVersion s d \<noteq> versionOrDirtyLevel s sb"
    and "subs s d \<noteq> None \<longrightarrow> subsTail s d \<noteq> None"
  shows "\<exists>s' l. link d allowScope s = Inr s' \<and> depsTail s' sb = Some l \<and> dep s' l = Some d
            \<and> link_depVersion s' l = depVersion s' d \<and> depVersion s' d = depVersion s d"
proof -
  let ?s1 = "s\<lparr>subVersion := (subVersion s)(d := versionOrDirtyLevel s sb)\<rparr>"
  let ?old = "case depsTail s sb of Some t \<Rightarrow> nextDep s t | None \<Rightarrow> deps s sb"
  have wf1: "subs ?s1 d \<noteq> None \<longrightarrow> subsTail ?s1 d \<noteq> None" using assms(5) by simp
  from link_new_result[OF wf1 refl, of sb "depsTail s sb" ?old]
  obtain s' l where n: "link_new d sb (depsTail s sb) ?old ?s1 = Inr s'" "depsTail s' sb = Some l"
    "dep s' l = Some d" "link_depVersion s' l = depVersion ?s1 d" "depVersion s' = depVersion ?s1"
    by blast
  show ?thesis
  proof (cases ?old)
    case None
    then have "link d allowScope s = Inr s'"
      using link_unfold[OF assms(1-4)] n(1) by (simp add: Let_def)
    then show ?thesis using n by auto
  next
    case (Some ol)
    show ?thesis
    proof (cases "dep s ol = Some d")
      case False
      then have "link d allowScope s = Inr s'"
        using link_unfold[OF assms(1-4)] n(1) Some by (simp add: Let_def)
      then show ?thesis using n by auto
    next
      case True
      then have "link d allowScope s = Inr (link_reuse d sb ol ?s1)"
        using link_unfold[OF assms(1-4)] Some by (simp add: Let_def)
      moreover have "dep ?s1 ol = Some d" using True by simp
      ultimately show ?thesis using link_reuse_result[of ?s1 ol d sb] by auto
    qed
  qed
qed

theorem link_records_depVersion_witness:
  "activeSubsDepth ex_stale \<noteq> 0 \<and> activeSub ex_stale = Some 0 \<and>
   subVersion ex_stale 1 \<noteq> versionOrDirtyLevel ex_stale 0 \<and>
   subVersion ex_stale 2 \<noteq> versionOrDirtyLevel ex_stale 0 \<and>
   (\<exists>s' l. link 1 True ex_stale = Inr s' \<and> depsTail s' 0 = Some l \<and> dep s' l = Some 1
            \<and> link_depVersion s' l = depVersion s' 1 \<and> depVersion s' 1 = depVersion ex_stale 1) \<and>
   (\<exists>s' l. link 2 True ex_stale = Inr s' \<and> depsTail s' 0 = Some l \<and> dep s' l = Some 2
            \<and> link_depVersion s' l = depVersion s' 2 \<and> depVersion s' 2 = depVersion ex_stale 2)"
proof -
  have h: "activeSubsDepth ex_stale \<noteq> 0" "activeSub ex_stale = Some 0"
    "True \<or> \<not> isScope ex_stale 0"
    by (simp_all add: ex_stale_def empty_state_def)
  have h1: "subVersion ex_stale 1 \<noteq> versionOrDirtyLevel ex_stale 0"
    "subs ex_stale 1 \<noteq> None \<longrightarrow> subsTail ex_stale 1 \<noteq> None"
    by (simp_all add: ex_stale_def empty_state_def)
  have h2: "subVersion ex_stale 2 \<noteq> versionOrDirtyLevel ex_stale 0"
    "subs ex_stale 2 \<noteq> None \<longrightarrow> subsTail ex_stale 2 \<noteq> None"
    by (simp_all add: ex_stale_def empty_state_def)
  show ?thesis
    using link_records_depVersion[OF h h1] link_records_depVersion[OF h h2] h(1,2) h1(1) h2(1)
    by blast
qed

text \<open>
  Claim C3, as amended. When the slot after the cursor does not hold the dependency read,
  \<open>Dependency.link\<close> takes a link from the pool (or creates one) and inserts it at
  the cursor position of the subscriber's list and at the tail of the dependency's
  subscriber list, and moves the cursor to it. A stale link at the cursor position is
  not released: it becomes the successor of the new link, keeps its endpoints, and
  nothing is pushed on the pool.
\<close>

theorem link_stale_counterexample:
  "\<not> isl (link 2 True ex_stale) \<and>
   pool (projr (link 2 True ex_stale)) = None \<and>
   deps (projr (link 2 True ex_stale)) 0 = Some 1 \<and>
   nextDep (projr (link 2 True ex_stale)) 1 = Some 0 \<and>
   dep (projr (link 2 True ex_stale)) 0 = Some 1 \<and>
   sub (projr (link 2 True ex_stale)) 0 = Some 0 \<and>
   subs (projr (link 2 True ex_stale)) 1 = Some 0"
  by (simp add: link_def link_new_def Link_get_def ex_stale_def empty_state_def Let_def)

theorem link_new_keeps_stale:
  assumes "activeSubsDepth s \<noteq> 0" and "activeSub s = Some sb"
    and "allowScope \<or> \<not> isScope s sb"
    and "subVersion s d \<noteq> versionOrDirtyLevel s sb"
    and "old = (case depsTail s sb of Some t \<Rightarrow> nextDep s t | None \<Rightarrow> deps s sb)"
    and "\<forall>ol. old = Some ol \<longrightarrow> dep s ol \<noteq> Some d"
    and "nl = (case pool s of Some p \<Rightarrow> p | None \<Rightarrow> next_link s)"
    and "old \<noteq> Some nl" and "depsTail s sb \<noteq> Some nl"
    and "subs s d \<noteq> None \<longrightarrow> subsTail s d \<noteq> None"
  shows "\<exists>s'. link d allowScope s = Inr s' \<and>
           dep s' nl = Some d \<and> sub s' nl = Some sb \<and>
           pool s' = (case pool s of Some p \<Rightarrow> prevPropagateOrNextReleased s p | None \<Rightarrow> None) \<and>
           (\<forall>ol. old = Some ol \<longrightarrow>
              nextDep s' nl = Some ol \<and> dep s' ol = dep s ol \<and> sub s' ol = sub s ol \<and>
              prevPropagateOrNextReleased s' ol = prevPropagateOrNextReleased s ol) \<and>
           (case depsTail s sb of None \<Rightarrow> deps s' sb = Some nl | Some t \<Rightarrow> nextDep s' t = Some nl) \<and>
           depsTail s' sb = Some nl \<and>
           subsTail s' d = Some nl \<and>
           (case subs s d of None \<Rightarrow> subs s' d = Some nl
            | Some h \<Rightarrow> subs s' d = Some h \<and> (\<exists>t. subsTail s d = Some t \<and> nextSub s' t = Some nl))"
proof -
  let ?s1 = "s\<lparr>subVersion := (subVersion s)(d := versionOrDirtyLevel s sb)\<rparr>"
  have wf1: "subs ?s1 d \<noteq> None \<longrightarrow> subsTail ?s1 d \<noteq> None" using assms(10) by simp
  have nl1: "nl = (case pool ?s1 of Some p \<Rightarrow> p | None \<Rightarrow> next_link ?s1)" using assms(7) by (cases "pool s") simp_all
  from link_new_result[OF wf1 nl1, of sb "depsTail s sb" old]
  obtain s' where n: "link_new d sb (depsTail s sb) old ?s1 = Inr s'"
    and r: "depsTail s' sb = Some nl" "dep s' nl = Some d" "sub s' nl = Some sb"
      "subsTail s' d = Some nl" "subs ?s1 d = None \<longrightarrow> subs s' d = Some nl"
      "\<forall>t. subs ?s1 d \<noteq> None \<and> subsTail ?s1 d = Some t \<longrightarrow> subs s' d = subs ?s1 d \<and> nextSub s' t = Some nl"
      "depsTail s sb = None \<longrightarrow> deps s' sb = Some nl"
      "\<forall>t. depsTail s sb = Some t \<and> t \<noteq> nl \<longrightarrow> nextDep s' t = Some nl"
      "pool s' = (case pool ?s1 of Some p \<Rightarrow> prevPropagateOrNextReleased ?s1 p | None \<Rightarrow> None)"
      "\<forall>ol. old = Some ol \<and> depsTail s sb \<noteq> Some nl \<longrightarrow> nextDep s' nl = Some ol"
      "\<forall>ol. ol \<noteq> nl \<longrightarrow> dep s' ol = dep ?s1 ol \<and> sub s' ol = sub ?s1 ol
                   \<and> prevPropagateOrNextReleased s' ol = prevPropagateOrNextReleased ?s1 ol"
    by (elim exE conjE) (rule that, assumption+)
  have "link d allowScope s = Inr s'"
    using link_unfold[OF assms(1-4)] n assms(5,6) by (auto simp: Let_def split: option.splits)
  moreover have "case depsTail s sb of None \<Rightarrow> deps s' sb = Some nl | Some t \<Rightarrow> nextDep s' t = Some nl"
    using r(7,8) assms(9) by (auto split: option.splits)
  moreover have "case subs s d of None \<Rightarrow> subs s' d = Some nl
            | Some h \<Rightarrow> subs s' d = Some h \<and> (\<exists>t. subsTail s d = Some t \<and> nextSub s' t = Some nl)"
    using r(5,6) assms(10) by (auto split: option.splits)
  moreover have "\<forall>ol. old = Some ol \<longrightarrow>
              nextDep s' nl = Some ol \<and> dep s' ol = dep s ol \<and> sub s' ol = sub s ol \<and>
              prevPropagateOrNextReleased s' ol = prevPropagateOrNextReleased s ol"
    using r(10,11) assms(8,9) by auto
  moreover have "pool s' = (case pool s of Some p \<Rightarrow> prevPropagateOrNextReleased s p | None \<Rightarrow> None)"
    using r(9) by (cases "pool s") simp_all
  ultimately show ?thesis using r(1-4) by auto
qed

theorem link_new_keeps_stale_witness:
  "activeSubsDepth ex_stale \<noteq> 0 \<and> activeSub ex_stale = Some 0 \<and>
   subVersion ex_stale 2 \<noteq> versionOrDirtyLevel ex_stale 0 \<and>
   (case depsTail ex_stale 0 of Some t \<Rightarrow> nextDep ex_stale t | None \<Rightarrow> deps ex_stale 0) = Some 0 \<and>
   dep ex_stale 0 \<noteq> Some 2 \<and>
   (\<exists>s'. link 2 True ex_stale = Inr s' \<and> dep s' 1 = Some 2 \<and> sub s' 1 = Some 0 \<and>
         pool s' = None \<and> nextDep s' 1 = Some 0 \<and> dep s' 0 = Some 1 \<and> sub s' 0 = Some 0 \<and>
         deps s' 0 = Some 1 \<and> depsTail s' 0 = Some 1 \<and> subsTail s' 2 = Some 1 \<and>
         subs s' 2 = Some 1)"
proof -
  have h: "activeSubsDepth ex_stale \<noteq> 0" "activeSub ex_stale = Some 0"
    "True \<or> \<not> isScope ex_stale 0"
    "subVersion ex_stale 2 \<noteq> versionOrDirtyLevel ex_stale 0"
    "Some 0 = (case depsTail ex_stale 0 of Some t \<Rightarrow> nextDep ex_stale t | None \<Rightarrow> deps ex_stale 0)"
    "\<forall>ol. Some 0 = Some ol \<longrightarrow> dep ex_stale ol \<noteq> Some 2"
    "1 = (case pool ex_stale of Some p \<Rightarrow> p | None \<Rightarrow> next_link ex_stale)"
    "Some 0 \<noteq> Some (1::nat)" "depsTail ex_stale 0 \<noteq> Some 1"
    "subs ex_stale 2 \<noteq> None \<longrightarrow> subsTail ex_stale 2 \<noteq> None"
    by (simp_all add: ex_stale_def empty_state_def)
  have e: "dep ex_stale 0 = Some 1" "sub ex_stale 0 = Some 0" "pool ex_stale = None"
    "depsTail ex_stale 0 = None" "subs ex_stale 2 = None" "deps ex_stale 0 = Some 0"
    "activeSubsDepth ex_stale = 1" "activeSub ex_stale = Some 0"
    "subVersion ex_stale 2 = 0" "versionOrDirtyLevel ex_stale 0 = 3"
    by (simp_all add: ex_stale_def empty_state_def)
  from link_new_keeps_stale[OF h] show ?thesis
    by (auto simp: e)
qed

section \<open>Properties of \<open>Subscriber.startTrack\<close>\<close>

text \<open>
  Claim C4. The counter \<open>System.subVersion\<close> starts at \<open>Dirty + 1 = 3\<close>, so
  the first stamp that \<open>startTrack\<close> assigns is 3, not 4 or more. The counter is a
  double: at \<open>2^53\<close> the post-increment leaves it as it is, and the next
  \<open>startTrack\<close> assigns the same stamp again, not a greater one.
\<close>

theorem startTrack_stamp_counterexample:
  "\<not> 4 \<le> versionOrDirtyLevel (snd (startTrack 0 (init_system empty_state))) 0 \<and>
   system_subVersion ex_counter_max = 2 ^ 53 \<and>
   versionOrDirtyLevel (snd (startTrack 0 ex_counter_max)) 0 = 2 ^ 53 \<and>
   versionOrDirtyLevel (snd (startTrack 1 (snd (startTrack 0 ex_counter_max)))) 1 = 2 ^ 53 \<and>
   \<not> versionOrDirtyLevel (snd (startTrack 0 ex_counter_max)) 0
       < versionOrDirtyLevel (snd (startTrack 1 (snd (startTrack 0 ex_counter_max)))) 1"
  by (simp add: startTrack_def preTrack_def init_system_def ex_counter_max_def increment_def
      Let_def)

text \<open>
  Claim C4, as amended. While the counter is above \<open>Dirty\<close>, as it is from its
  initial value 3 on, the stamp that \<open>startTrack\<close> assigns is the counter's value,
  at least 3 and so above every dirty-level code; the counter stays above
  \<open>Dirty\<close>; the next \<open>startTrack\<close> assigns a stamp that is not smaller,
  and a strictly greater one as long as the counter is below \<open>2^53\<close>.
\<close>

theorem startTrack_stamp:
  assumes "Dirty < system_subVersion s"
  shows "let s1 = snd (startTrack a s); s2 = snd (startTrack b s1) in
           versionOrDirtyLevel s1 a = system_subVersion s \<and>
           Dirty + 1 \<le> versionOrDirtyLevel s1 a \<and>
           Dirty < system_subVersion s1 \<and>
           versionOrDirtyLevel s1 a \<le> versionOrDirtyLevel s2 b \<and>
           (system_subVersion s < 2 ^ 53 \<longrightarrow>
              versionOrDirtyLevel s1 a < versionOrDirtyLevel s2 b)"
proof -
  from assms have p: "0 \<le> system_subVersion s" by simp
  have g: "system_subVersion s \<le> increment (system_subVersion s)"
    by (rule increment_ge[OF p])
  have "system_subVersion s < increment (system_subVersion s)"
    if "system_subVersion s < 2 ^ 53"
    using that p by (simp add: increment_exact)
  with g assms show ?thesis
    by (simp add: startTrack_def preTrack_def Let_def)
qed

theorem startTrack_stamp_witness:
  "Dirty < system_subVersion (init_system empty_state) \<and>
   system_subVersion (init_system empty_state) < 2 ^ 53 \<and>
   (let s1 = snd (startTrack 0 (init_system empty_state)); s2 = snd (startTrack 1 s1) in
           versionOrDirtyLevel s1 0 = system_subVersion (init_system empty_state) \<and>
           Dirty + 1 \<le> versionOrDirtyLevel s1 0 \<and>
           Dirty < system_subVersion s1 \<and>
           versionOrDirtyLevel s1 0 < versionOrDirtyLevel s2 1)"
proof -
  have h: "Dirty < system_subVersion (init_system empty_state)"
    and b: "system_subVersion (init_system empty_state) < 2 ^ 53"
    by (simp_all add: init_system_def)
  show ?thesis using h b startTrack_stamp[OF h, of 0 1] by (simp add: Let_def)
qed

section \<open>Properties of \<open>Dependency.propagate\<close>\<close>

lemma enqueue_fields [simp]:
  "versionOrDirtyLevel (enqueue sb s) = versionOrDirtyLevel s"
  "sub (enqueue sb s) = sub s" "dep (enqueue sb s) = dep s" "deps (enqueue sb s) = deps s"
  "subs (enqueue sb s) = subs s" "nextSub (enqueue sb s) = nextSub s"
  "prevPropagateOrNextReleased (enqueue sb s) = prevPropagateOrNextReleased s"
  "trace (enqueue sb s) = trace s" "batchDepth (enqueue sb s) = batchDepth s"
  "depVersion (enqueue sb s) = depVersion s"
  by (simp_all add: enqueue_def split: option.splits)

lemma propagate_step_level:
  assumes "propagate_step e c = Next c'"
  shows "versionOrDirtyLevel (fst c) n \<le> versionOrDirtyLevel (fst c') n"
  using assms
  by (auto simp: propagate_step_def Let_def split: prod.splits option.splits if_splits)

lemma propagate_step_Done:
  assumes "propagate_step e c = Done (Inr s')"
  shows "s' = fst c"
  using assms
  by (auto simp: propagate_step_def Let_def split: prod.splits option.splits if_splits)

lemma propagate_steps_level:
  "versionOrDirtyLevel (fst c) n \<le> versionOrDirtyLevel (fst (propagate_steps e k c)) n"
proof (induction k arbitrary: c)
  case 0
  show ?case by simp
next
  case (Suc k)
  show ?case
  proof (cases "propagate_step e c")
    case (Next c')
    have "versionOrDirtyLevel (fst c) n \<le> versionOrDirtyLevel (fst c') n"
      by (rule propagate_step_level[OF Next])
    also have "\<dots> \<le> versionOrDirtyLevel (fst (propagate_steps e k c')) n"
      by (rule Suc.IH)
    finally show ?thesis using Next by simp
  next
    case (Done r)
    then show ?thesis by simp
  qed
qed

lemma propagate_steps_add:
  "propagate_steps e (j + i) c = propagate_steps e i (propagate_steps e j c)"
proof (induction j arbitrary: c)
  case 0
  show ?case by simp
next
  case (Suc j)
  show ?case
  proof (cases "propagate_step e c")
    case (Next c')
    then show ?thesis using Suc.IH by simp
  next
    case (Done r)
    have "propagate_steps e i c = c"
      by (induction i) (simp_all add: Done)
    then show ?thesis using Done by simp
  qed
qed

lemma propagate_loop_steps:
  assumes "propagate_loop e c = Some r"
  shows "\<exists>k. propagate_step e (propagate_steps e k c) = Done r"
  using assms
proof (induction rule: propagate_loop.raw_induct[rotated -1, consumes 1, case_names loop])
  case (loop f e c r)
  show ?case
  proof (cases "propagate_step e c")
    case (Next c')
    with loop(2) have "f e c' = Some r" by simp
    from loop(1)[OF this] obtain k where "propagate_step e (propagate_steps e k c') = Done r" ..
    then have "propagate_step e (propagate_steps e (Suc k) c) = Done r" using Next by simp
    then show ?thesis ..
  next
    case (Done r')
    with loop(2) have "r' = r" by simp
    then have "propagate_step e (propagate_steps e 0 c) = Done r" using Done by simp
    then show ?thesis ..
  qed
qed

text \<open>
  Claim C5. Within one pass of \<open>Dependency.propagate\<close> the
  \<open>versionOrDirtyLevel\<close> of every subscriber never decreases: it is at every
  iteration at least what it was at any earlier iteration, from any configuration of
  the walk and so whatever the order of the visits, and the store \<open>propagate\<close>
  returns has every level at least as high as the store it was called on.
\<close>

theorem propagate_level_monotone:
  "(\<forall>j i n. versionOrDirtyLevel (fst (propagate_steps e j c)) n
              \<le> versionOrDirtyLevel (fst (propagate_steps e (j + i) c)) n) \<and>
   (\<forall>s'. propagate e d s = Some (Inr s') \<longrightarrow>
      (\<forall>n. versionOrDirtyLevel s n \<le> versionOrDirtyLevel s' n))"
proof (intro conjI allI impI)
  fix j i n
  show "versionOrDirtyLevel (fst (propagate_steps e j c)) n
          \<le> versionOrDirtyLevel (fst (propagate_steps e (j + i) c)) n"
    unfolding propagate_steps_add by (rule propagate_steps_level)
next
  fix s' n
  assume p: "propagate e d s = Some (Inr s')"
  let ?s1 = "s\<lparr>depVersion := (depVersion s)(d := increment (depVersion s d))\<rparr>"
  let ?c = "(?s1, Some d, subs ?s1 d, Dirty, 0::int)"
  from p have "propagate_loop e ?c = Some (Inr s')" by (simp add: propagate_def Let_def)
  from propagate_loop_steps[OF this] obtain k
    where "propagate_step e (propagate_steps e k ?c) = Done (Inr s')" ..
  then have "s' = fst (propagate_steps e k ?c)" by (rule propagate_step_Done)
  moreover have "versionOrDirtyLevel (fst ?c) n \<le> versionOrDirtyLevel (fst (propagate_steps e k ?c)) n"
    by (rule propagate_steps_level)
  ultimately show "versionOrDirtyLevel s n \<le> versionOrDirtyLevel s' n" by simp
qed

theorem propagate_level_monotone_witness:
  "\<exists>s'. propagate ex_env 0 ex_diamond = Some (Inr s') \<and>
        (\<forall>n. versionOrDirtyLevel ex_diamond n \<le> versionOrDirtyLevel s' n) \<and>
        versionOrDirtyLevel s' 1 = Dirty \<and> versionOrDirtyLevel s' 2 = Dirty \<and>
        versionOrDirtyLevel s' 3 = MaybeDirty"
proof -
  have "\<exists>s'. propagate ex_env 0 ex_diamond = Some (Inr s') \<and>
        versionOrDirtyLevel s' 1 = Dirty \<and> versionOrDirtyLevel s' 2 = Dirty \<and>
        versionOrDirtyLevel s' 3 = MaybeDirty"
    by (simp add: propagate_def propagate_loop.simps propagate_step_def enqueue_def Let_def
        ex_diamond_def ex_env_def empty_state_def)
  then obtain s' where r: "propagate ex_env 0 ex_diamond = Some (Inr s')"
    "versionOrDirtyLevel s' 1 = Dirty" "versionOrDirtyLevel s' 2 = Dirty"
    "versionOrDirtyLevel s' 3 = MaybeDirty" by blast
  from propagate_level_monotone[of ex_env _ 0 ex_diamond] r(1)
  have "\<forall>n. versionOrDirtyLevel ex_diamond n \<le> versionOrDirtyLevel s' n" by blast
  with r show ?thesis by blast
qed

section \<open>The walk of \<open>Dependency.propagate\<close> on a well-formed graph\<close>

subsection \<open>What the walk leaves alone\<close>

lemma mark_fields [simp]:
  "sub (mark m dl s) = sub s" "dep (mark m dl s) = dep s" "deps (mark m dl s) = deps s"
  "subs (mark m dl s) = subs s" "nextSub (mark m dl s) = nextSub s"
  "prevPropagateOrNextReleased (mark m dl s) = prevPropagateOrNextReleased s"
  "nextNotify (mark m dl s) = nextNotify s" "queuedEffects (mark m dl s) = queuedEffects s"
  "queuedEffectsTail (mark m dl s) = queuedEffectsTail s"
  by (simp_all add: mark_def)

lemma mark_level:
  "versionOrDirtyLevel (mark m dl s) x =
     (if x = m \<and> versionOrDirtyLevel s m < dl then dl else versionOrDirtyLevel s x)"
  by (simp add: mark_def)

lemma walk_frame_refl: "walk_frame s s"
  unfolding walk_frame_def
  by (rule exI[of _ "versionOrDirtyLevel s"], rule exI[of _ "prevPropagateOrNextReleased s"],
      rule exI[of _ "nextNotify s"], rule exI[of _ "queuedEffects s"],
      rule exI[of _ "queuedEffectsTail s"]) simp

lemma walk_frame_trans: "walk_frame s s1 \<Longrightarrow> walk_frame s1 s2 \<Longrightarrow> walk_frame s s2"
  unfolding walk_frame_def by (elim exE) (simp, blast)

lemma walk_frame_mark: "walk_frame s (mark m dl s)"
  unfolding walk_frame_def mark_def
  by (rule exI[of _ "versionOrDirtyLevel (mark m dl s)"], rule exI[of _ "prevPropagateOrNextReleased s"],
      rule exI[of _ "nextNotify s"], rule exI[of _ "queuedEffects s"],
      rule exI[of _ "queuedEffectsTail s"]) (simp add: mark_def)

lemma walk_frame_enqueue: "walk_frame s (enqueue m s)"
  unfolding walk_frame_def
  by (rule exI[of _ "versionOrDirtyLevel s"], rule exI[of _ "prevPropagateOrNextReleased s"],
      rule exI[of _ "nextNotify (enqueue m s)"], rule exI[of _ "queuedEffects (enqueue m s)"],
      rule exI[of _ "queuedEffectsTail (enqueue m s)"]) (simp add: enqueue_def split: option.splits)

lemma walk_frame_scratch: "walk_frame s (s\<lparr>prevPropagateOrNextReleased := f\<rparr>)"
  unfolding walk_frame_def
  by (rule exI[of _ "versionOrDirtyLevel s"], rule exI[of _ f],
      rule exI[of _ "nextNotify s"], rule exI[of _ "queuedEffects s"],
      rule exI[of _ "queuedEffectsTail s"]) simp

lemma walk_frame_fields:
  assumes "walk_frame s s'"
  shows "sub s' = sub s" "dep s' = dep s" "deps s' = deps s" "subs s' = subs s"
    "nextSub s' = nextSub s" "trace s' = trace s" "batchDepth s' = batchDepth s"
    "depVersion s' = depVersion s" "subsTail s' = subsTail s" "nextDep s' = nextDep s"
    "prevSubOrUpdate s' = prevSubOrUpdate s" "pool s' = pool s"
  using assms unfolding walk_frame_def by auto

lemma visit_frame: "visit e d k s lk s' \<Longrightarrow> walk_frame s s'"
proof (induction rule: visit.induct)
  case (visit_end d k s)
  show ?case by (rule walk_frame_refl)
next
  case (visit_pass s l m s1 k s2 d s')
  have "walk_frame s s1" using visit_pass(3) by (simp add: walk_frame_mark)
  moreover have "walk_frame s1 s2" using visit_pass(4) by (simp add: walk_frame_enqueue walk_frame_refl)
  ultimately show ?case using visit_pass.IH by (blast intro: walk_frame_trans)
next
  case (visit_descend s l m d l0 s1 k s2 s3 s4 s')
  have "walk_frame s s1"
    unfolding visit_descend(7)
    by (rule walk_frame_trans[OF walk_frame_mark[of s m "lvl k"] walk_frame_scratch])
  moreover have "walk_frame s2 s3" unfolding visit_descend(10) by (rule walk_frame_scratch)
  moreover have "walk_frame s3 s4" using visit_descend(11) by (simp add: walk_frame_enqueue walk_frame_refl)
  ultimately show ?case using visit_descend.IH by (blast intro: walk_frame_trans)
qed

subsection \<open>The loop runs the recursive walk\<close>

lemma propagate_loop_Next:
  "propagate_step e c = Next c' \<Longrightarrow> propagate_loop e c = propagate_loop e c'"
  by (subst propagate_loop.simps) simp

lemma propagate_loop_Done:
  "propagate_step e c = Done r \<Longrightarrow> propagate_loop e c = Some r"
  by (subst propagate_loop.simps) simp

lemma lvl_simps [simp]: "lvl 0 = Dirty" "lvl (Suc k) = MaybeDirty"
  by (simp_all add: lvl_def)

lemma lvl_int: "(if int k = 0 then Dirty else MaybeDirty) = lvl k"
  by (simp add: lvl_def)

lemma lvl_pos: "0 < lvl k" "lvl k \<noteq> 0" "MaybeDirty \<le> lvl k"
  by (simp_all add: lvl_def)

lemma visit_loop:
  "visit e d k s lk s' \<Longrightarrow>
   propagate_loop e (s, Some d, lk, lvl k, int k) = propagate_loop e (s', Some d, None, lvl k, int k)"
proof (induction rule: visit.induct)
  case (visit_end d k s)
  show ?case by simp
next
  case (visit_pass s l m s1 k s2 d s')
  have "propagate_step e (s, Some d, Some l, lvl k, int k) = Next (s2, Some d, nextSub s2 l, lvl k, int k)"
    using visit_pass(1,2) unfolding visit_pass(3,4)
    by (auto simp: propagate_step_def mark_def Let_def)
  from propagate_loop_Next[OF this] visit_pass.IH show ?case by simp
next
  case (visit_descend s l m d l0 s1 k s2 s3 s4 s')
  have f: "walk_frame s1 s2" by (rule visit_frame[OF visit_descend(8)])
  have s1: "deps s1 m = Some l0" "sub s1 l = Some m" "dep s1 l = Some d"
    using visit_descend(1,2,6) unfolding visit_descend(7) by simp_all
  have s2: "deps s2 m = Some l0" "sub s2 l = Some m" "dep s2 l = Some d"
    using s1 walk_frame_fields[OF f] by simp_all
  have a: "propagate_step e (s, Some d, Some l, lvl k, int k)
             = Next (s1, Some m, subs s1 m, lvl (Suc k), int (Suc k))"
    using visit_descend(1,3,4,6) unfolding visit_descend(7)
    by (simp add: propagate_step_def mark_def Let_def lvl_pos)
  have b: "propagate_step e (s2, Some m, None, lvl (Suc k), int (Suc k))
             = Next (s4, Some d, nextSub s4 l, lvl k, int k)"
    using visit_descend(5,9) s2 unfolding visit_descend(10,11)
    by (auto simp: propagate_step_def Let_def lvl_def)
  show ?case
    using propagate_loop_Next[OF a] propagate_loop_Next[OF b] visit_descend.IH by simp
qed

subsection \<open>The walk ends\<close>

lemma raised_refl: "raised s s"
  by (simp add: raised_def)

lemma raised_trans: "raised s s1 \<Longrightarrow> raised s1 s2 \<Longrightarrow> raised s s2"
  unfolding raised_def by (meson order_trans)

lemma raised_same: "versionOrDirtyLevel s' = versionOrDirtyLevel s \<Longrightarrow> raised s s'"
  by (simp add: raised_def)

lemma raised_mark: "raised s (mark m (lvl k) s)"
  using lvl_pos(1)[of k] by (auto simp: raised_def mark_level)

lemma raised_enqueue: "raised s (enqueue m s)"
  by (rule raised_same) simp

lemma enqueue_level_if [simp]:
  "versionOrDirtyLevel (if b then enqueue m s else s) = versionOrDirtyLevel s"
  by simp

lemma sum_list_map_strict:
  fixes f g :: "'a \<Rightarrow> nat"
  assumes "m \<in> set xs" and "\<forall>x \<in> set xs. f x \<le> g x" and "f m + c \<le> g m"
  shows "sum_list (map f xs) + c \<le> sum_list (map g xs)"
  using assms
proof (induction xs)
  case Nil
  then show ?case by simp
next
  case (Cons x xs)
  have le: "sum_list (map f xs) \<le> sum_list (map g xs)"
    using Cons.prems(2) by (intro sum_list_mono) simp
  show ?case
  proof (cases "x = m")
    case True
    then show ?thesis using le Cons.prems(3) by simp
  next
    case False
    then have "m \<in> set xs" using Cons.prems(1) by simp
    from Cons.IH[OF this] Cons.prems(2,3)
    have "sum_list (map f xs) + c \<le> sum_list (map g xs)" by simp
    moreover have "f x \<le> g x" using Cons.prems(2) by simp
    ultimately show ?thesis by simp
  qed
qed

lemma work_mono: "raised s s' \<Longrightarrow> work e N G s' \<le> work e N G s"
  unfolding work_def by (intro sum_list_mono) (auto simp: raised_def)

lemma work_descend:
  assumes "m \<in> set N" and "has_subs e m" and "versionOrDirtyLevel s m = NotDirty"
    and "raised s s1" and "versionOrDirtyLevel s1 m \<noteq> NotDirty"
  shows "work e N G s1 + Suc (length (G m)) \<le> work e N G s"
  unfolding work_def
  by (rule sum_list_map_strict[OF assms(1)]) (use assms in \<open>auto simp: raised_def\<close>)

lemma subs_ok_frame: "walk_frame s s' \<Longrightarrow> subs_ok e N G s \<Longrightarrow> subs_ok e N G s'"
  by (simp add: subs_ok_def walk_frame_fields)

lemma slots_ok_raised:
  assumes "slots_ok e N s" and "raised s s'" and "deps s' = deps s" and "sub s' = sub s"
    and "\<forall>m \<in> set N. \<forall>l0. has_subs e m \<and> has_deps e m \<and> versionOrDirtyLevel s' m = NotDirty \<and>
            deps s m = Some l0 \<and> sub s l0 = Some m \<longrightarrow>
            prevPropagateOrNextReleased s' l0 = prevPropagateOrNextReleased s l0"
  shows "slots_ok e N s'"
  unfolding slots_ok_def
proof (intro ballI impI)
  fix m assume m: "m \<in> set N"
    and h: "has_subs e m \<and> has_deps e m \<and> versionOrDirtyLevel s' m = NotDirty"
  then have z: "versionOrDirtyLevel s m = NotDirty" using assms(2) by (simp add: raised_def)
  with assms(1) m h obtain l0 where l0: "deps s m = Some l0" "sub s l0 = Some m"
    "prevPropagateOrNextReleased s l0 = None"
    by (auto simp: slots_ok_def split: option.splits)
  with assms(5) m h have "prevPropagateOrNextReleased s' l0 = None" by metis
  with l0 show "case deps s' m of None \<Rightarrow> False
         | Some l0 \<Rightarrow> sub s' l0 = Some m \<and> prevPropagateOrNextReleased s' l0 = None"
    by (simp add: assms(3,4))
qed

lemma slots_ok_clear:
  assumes "slots_ok e N s"
  shows "slots_ok e N (s\<lparr>prevPropagateOrNextReleased := (prevPropagateOrNextReleased s)(l0 := None)\<rparr>)"
  using assms by (auto simp: slots_ok_def split: option.splits)

lemma slots_ok_enqueue:
  assumes "slots_ok e N s"
  shows "slots_ok e N (if b then enqueue m s else s)"
  using assms by (auto simp: slots_ok_def split: option.splits)

lemma visit_exists_aux:
  "\<lbrakk>work e N G s + length ls < n; subs_ok e N G s; slots_ok e N s; d \<in> set N;
    chain (nextSub s) lk ls; set ls \<subseteq> set (G d)\<rbrakk>
   \<Longrightarrow> \<exists>s'. visit e d k s lk s' \<and> slots_ok e N s' \<and>
            prevPropagateOrNextReleased s' = prevPropagateOrNextReleased s \<and> raised s s'"
proof (induction n arbitrary: s ls lk d k)
  case 0
  then show ?case by simp
next
  case (Suc n)
  show ?case
  proof (cases ls)
    case Nil
    with Suc.prems(5) have "lk = None" by simp
    then show ?thesis using Suc.prems(3) by (auto intro: visit_end raised_refl)
  next
    case (Cons l ls')
    with Suc.prems(5) have lk: "lk = Some l" and ch: "chain (nextSub s) (nextSub s l) ls'"
      by simp_all
    from Cons Suc.prems(6) have lG: "l \<in> set (G d)" and sub': "set ls' \<subseteq> set (G d)" by auto
    from Suc.prems(2,4) lG obtain m where dl: "dep s l = Some d" and sl: "sub s l = Some m"
      and mN: "m \<in> set N" and hd: "has_deps e m"
      by (auto simp: subs_ok_def split: option.splits)
    show ?thesis
    proof (cases "versionOrDirtyLevel s m = NotDirty \<and> has_subs e m")
      case False
      define s1 where "s1 = mark m (lvl k) s"
      define s2 where "s2 = (if versionOrDirtyLevel s m = NotDirty \<and> notify e m \<noteq> None
                             then enqueue m s1 else s1)"
      have fr: "walk_frame s s2"
        unfolding s2_def s1_def
        by (auto intro: walk_frame_trans[OF walk_frame_mark walk_frame_enqueue] walk_frame_mark)
      have ra: "raised s s2"
        unfolding s2_def s1_def
        by (auto intro: raised_trans[OF raised_mark raised_enqueue] raised_mark)
      have sc: "prevPropagateOrNextReleased s2 = prevPropagateOrNextReleased s"
        unfolding s2_def s1_def by simp
      have so: "slots_ok e N s2"
        by (rule slots_ok_raised[OF Suc.prems(3) ra]) (simp_all add: walk_frame_fields[OF fr] sc)
      have "work e N G s2 + length ls' < n"
        using work_mono[OF ra, of e N G] Suc.prems(1) Cons by simp
      moreover have "chain (nextSub s2) (nextSub s2 l) ls'"
        using ch by (simp add: walk_frame_fields[OF fr])
      ultimately obtain s' where v: "visit e d k s2 (nextSub s2 l) s'" and r: "slots_ok e N s'"
        "prevPropagateOrNextReleased s' = prevPropagateOrNextReleased s2" "raised s2 s'"
        using Suc.IH[OF _ subs_ok_frame[OF fr Suc.prems(2)] so Suc.prems(4) _ sub'] by blast
      have "visit e d k s (Some l) s'"
        by (rule visit_pass[OF sl False s1_def s2_def v])
      then show ?thesis using r sc raised_trans[OF ra r(3)] lk by auto
    next
      case True
      then have z: "versionOrDirtyLevel s m = NotDirty" and hs: "has_subs e m" by simp_all
      from Suc.prems(3) mN True hd obtain l0 where dm: "deps s m = Some l0"
        and sl0: "sub s l0 = Some m" and pl0: "prevPropagateOrNextReleased s l0 = None"
        by (auto simp: slots_ok_def split: option.splits)
      define s1 where "s1 = (mark m (lvl k) s)\<lparr>prevPropagateOrNextReleased :=
             (prevPropagateOrNextReleased s)(l0 := Some l)\<rparr>"
      have fr1: "walk_frame s s1"
        unfolding s1_def by (rule walk_frame_trans[OF walk_frame_mark[of s m "lvl k"] walk_frame_scratch])
      have lv1: "versionOrDirtyLevel s1 = versionOrDirtyLevel (mark m (lvl k) s)"
        unfolding s1_def by simp
      have ra1: "raised s s1"
        by (rule raised_trans[OF raised_mark[of s m k]]) (rule raised_same, simp add: lv1)
      have nz: "versionOrDirtyLevel s1 m \<noteq> NotDirty"
        using z lvl_pos[of k] by (simp add: lv1 mark_level)
      have so1: "slots_ok e N s1"
      proof (rule slots_ok_raised[OF Suc.prems(3) ra1], goal_cases)
        case 1 show ?case by (simp add: walk_frame_fields[OF fr1])
      next
        case 2 show ?case by (simp add: walk_frame_fields[OF fr1])
      next
        case 3
        show ?case
        proof (intro ballI allI impI)
          fix m' l0' assume "m' \<in> set N"
            and h: "has_subs e m' \<and> has_deps e m' \<and> versionOrDirtyLevel s1 m' = NotDirty \<and> deps s m' = Some l0' \<and> sub s l0' = Some m'"
          then have "m' \<noteq> m" using nz by auto
          then have "l0' \<noteq> l0" using h sl0 by auto
          then show "prevPropagateOrNextReleased s1 l0' = prevPropagateOrNextReleased s l0'"
            unfolding s1_def by simp
        qed
      qed
      have w1: "work e N G s1 + Suc (length (G m)) \<le> work e N G s"
        by (rule work_descend[OF mN hs z ra1 nz])
      have so0: "subs_ok e N G s1" by (rule subs_ok_frame[OF fr1 Suc.prems(2)])
      have ch1: "chain (nextSub s1) (subs s1 m) (G m)"
        using so0 mN by (simp add: subs_ok_def)
      have "work e N G s1 + length (G m) < n"
        using w1 Suc.prems(1) by simp
      from Suc.IH[OF this so0 so1 mN ch1 subset_refl, of "Suc k"]
      obtain s2 where v1: "visit e m (Suc k) s1 (subs s1 m) s2" and so2: "slots_ok e N s2"
        and sc2: "prevPropagateOrNextReleased s2 = prevPropagateOrNextReleased s1"
        and ra2: "raised s1 s2" by blast
      have fr2: "walk_frame s1 s2" by (rule visit_frame[OF v1])
      have p2: "prevPropagateOrNextReleased s2 l0 = Some l"
        unfolding sc2 s1_def by simp
      define s3 where "s3 = s2\<lparr>prevPropagateOrNextReleased := (prevPropagateOrNextReleased s2)(l0 := None)\<rparr>"
      define s4 where "s4 = (if notify e m \<noteq> None then enqueue m s3 else s3)"
      have fr4: "walk_frame s2 s4"
        unfolding s4_def s3_def
        by (auto intro: walk_frame_trans[OF walk_frame_scratch walk_frame_enqueue] walk_frame_scratch)
      have ra4: "raised s2 s4"
        by (rule raised_same) (simp add: s4_def s3_def)
      have sc4: "prevPropagateOrNextReleased s4 = prevPropagateOrNextReleased s"
        unfolding s4_def s3_def sc2 s1_def using pl0 by (auto simp: fun_upd_idem)
      have so4: "slots_ok e N s4"
        unfolding s4_def s3_def by (intro slots_ok_enqueue slots_ok_clear so2)
      have fr04: "walk_frame s s4" by (rule walk_frame_trans[OF fr1 walk_frame_trans[OF fr2 fr4]])
      have ra04: "raised s s4" by (rule raised_trans[OF ra1 raised_trans[OF ra2 ra4]])
      have "work e N G s4 + length ls' < n"
        using work_mono[OF ra04, of e N G] Suc.prems(1) Cons by simp
      moreover have "chain (nextSub s4) (nextSub s4 l) ls'"
        using ch by (simp add: walk_frame_fields[OF fr04])
      ultimately obtain s' where v: "visit e d k s4 (nextSub s4 l) s'" and r: "slots_ok e N s'"
        "prevPropagateOrNextReleased s' = prevPropagateOrNextReleased s4" "raised s4 s'"
        using Suc.IH[OF _ subs_ok_frame[OF fr04 Suc.prems(2)] so4 Suc.prems(4) _ sub'] by blast
      have "visit e d k s (Some l) s'"
        by (rule visit_descend[OF sl dl z hs hd dm s1_def v1 p2 s3_def s4_def v])
      then show ?thesis using r sc4 raised_trans[OF ra04 r(3)] lk by auto
    qed
  qed
qed

subsection \<open>What the walk marks\<close>

lemma chain_None [simp]: "chain nxt None ls = (ls = [])"
  by (cases ls) auto

lemma visit_raised: "visit e d k s lk s' \<Longrightarrow> raised s s'"
proof (induction rule: visit.induct)
  case (visit_end d k s)
  show ?case by (rule raised_refl)
next
  case (visit_pass s l m s1 k s2 d s')
  have "raised s s2" unfolding visit_pass(3,4)
    by (auto intro: raised_trans[OF raised_mark raised_enqueue] raised_mark)
  then show ?case using visit_pass.IH by (rule raised_trans)
next
  case (visit_descend s l m d l0 s1 k s2 s3 s4 s')
  have "raised s s1"
    by (rule raised_trans[OF raised_mark[of s m k]]) (rule raised_same, simp add: visit_descend(7))
  moreover have "raised s2 s4" by (rule raised_same) (simp add: visit_descend(10,11))
  ultimately show ?case using visit_descend.IH by (blast intro: raised_trans)
qed

lemma mark_reaches: "lvl k \<le> versionOrDirtyLevel (mark m (lvl k) s) m"
  by (simp add: mark_level)

lemma raised_le: "raised s s' \<Longrightarrow> a \<le> versionOrDirtyLevel s m \<Longrightarrow> a \<le> versionOrDirtyLevel s' m"
  unfolding raised_def by (meson order_trans)

lemma visit_marks:
  "visit e d k s lk s' \<Longrightarrow> chain (nextSub s) lk ls \<Longrightarrow> l' \<in> set ls \<Longrightarrow> sub s l' = Some m'
   \<Longrightarrow> lvl k \<le> versionOrDirtyLevel s' m'"
proof (induction arbitrary: ls rule: visit.induct)
  case (visit_end d k s)
  then show ?case by simp
next
  case (visit_pass s l m s1 k s2 d s')
  have fr: "walk_frame s s2" unfolding visit_pass(3,4)
    by (auto intro: walk_frame_trans[OF walk_frame_mark walk_frame_enqueue] walk_frame_mark)
  from visit_pass.prems(1) obtain ls' where ls: "ls = l # ls'" and ch: "chain (nextSub s) (nextSub s l) ls'"
    by (cases ls) auto
  show ?case
  proof (cases "l' = l")
    case True
    then have "m' = m" using visit_pass(1) visit_pass.prems(3) by simp
    moreover have "lvl k \<le> versionOrDirtyLevel s2 m"
      unfolding visit_pass(3,4) by (simp add: mark_reaches)
    ultimately show ?thesis using raised_le[OF visit_raised[OF visit_pass(5)]] by simp
  next
    case False
    then have "l' \<in> set ls'" using visit_pass.prems(2) ls by simp
    then show ?thesis
      using visit_pass.IH[of ls'] ch visit_pass.prems(3) by (simp add: walk_frame_fields[OF fr])
  qed
next
  case (visit_descend s l m d l0 s1 k s2 s3 s4 s')
  have fr1: "walk_frame s s1" unfolding visit_descend(7)
    by (rule walk_frame_trans[OF walk_frame_mark[of s m "lvl k"] walk_frame_scratch])
  have fr2: "walk_frame s1 s2" by (rule visit_frame[OF visit_descend(8)])
  have fr4: "walk_frame s2 s4" unfolding visit_descend(10,11)
    by (auto intro: walk_frame_trans[OF walk_frame_scratch walk_frame_enqueue] walk_frame_scratch)
  have fr: "walk_frame s s4" by (rule walk_frame_trans[OF fr1 walk_frame_trans[OF fr2 fr4]])
  from visit_descend.prems(1) obtain ls' where ls: "ls = l # ls'" and ch: "chain (nextSub s) (nextSub s l) ls'"
    by (cases ls) auto
  show ?case
  proof (cases "l' = l")
    case True
    then have "m' = m" using visit_descend(1) visit_descend.prems(3) by simp
    moreover have "lvl k \<le> versionOrDirtyLevel s1 m"
      unfolding visit_descend(7) by (simp add: mark_reaches)
    moreover have "raised s1 s'"
      by (rule raised_trans[OF visit_raised[OF visit_descend(8)]
            raised_trans[OF _ visit_raised[OF visit_descend(12)]]])
         (rule raised_same, simp add: visit_descend(10,11))
    ultimately show ?thesis using raised_le by simp
  next
    case False
    then have "l' \<in> set ls'" using visit_descend.prems(2) ls by simp
    then show ?thesis
      using visit_descend.IH(2)[of ls'] ch visit_descend.prems(3) by (simp add: walk_frame_fields[OF fr])
  qed
qed

text \<open>Every node that the walk has entered has had its whole subscriber list marked.\<close>

lemma visit_closure:
  "visit e d k s lk s' \<Longrightarrow> subs_ok e N G s \<Longrightarrow> d \<in> set N \<Longrightarrow> chain (nextSub s) lk ls \<Longrightarrow>
   set ls \<subseteq> set (G d) \<Longrightarrow>
   x \<in> set N \<Longrightarrow> has_subs e x \<Longrightarrow> versionOrDirtyLevel s x = NotDirty \<Longrightarrow>
   versionOrDirtyLevel s' x \<noteq> NotDirty \<Longrightarrow> l' \<in> set (G x) \<Longrightarrow> sub s l' = Some m' \<Longrightarrow>
   MaybeDirty \<le> versionOrDirtyLevel s' m'"
proof (induction arbitrary: ls rule: visit.induct)
  case (visit_end d k s)
  then show ?case by simp
next
  case (visit_pass s l m s1 k s2 d s')
  have fr: "walk_frame s s2" unfolding visit_pass(3,4)
    by (auto intro: walk_frame_trans[OF walk_frame_mark walk_frame_enqueue] walk_frame_mark)
  from visit_pass.prems(3) obtain ls' where ls: "ls = l # ls'" and ch: "chain (nextSub s) (nextSub s l) ls'"
    by (cases ls) auto
  have "x \<noteq> m" using visit_pass(2) visit_pass.prems(6,7) by auto
  then have "versionOrDirtyLevel s2 x = NotDirty"
    using visit_pass.prems(7) unfolding visit_pass(3,4) by (simp add: mark_level)
  then show ?case
    using visit_pass.IH[of ls'] subs_ok_frame[OF fr visit_pass.prems(1)] visit_pass.prems ch ls
    by (simp add: walk_frame_fields[OF fr])
next
  case (visit_descend s l m d l0 s1 k s2 s3 s4 s')
  have fr1: "walk_frame s s1" unfolding visit_descend(7)
    by (rule walk_frame_trans[OF walk_frame_mark[of s m "lvl k"] walk_frame_scratch])
  have fr2: "walk_frame s1 s2" by (rule visit_frame[OF visit_descend(8)])
  have fr4: "walk_frame s2 s4" unfolding visit_descend(10,11)
    by (auto intro: walk_frame_trans[OF walk_frame_scratch walk_frame_enqueue] walk_frame_scratch)
  have fr: "walk_frame s s4" by (rule walk_frame_trans[OF fr1 walk_frame_trans[OF fr2 fr4]])
  have lv4: "versionOrDirtyLevel s4 = versionOrDirtyLevel s2" by (simp add: visit_descend(10,11))
  have ra4: "raised s4 s'" by (rule visit_raised[OF visit_descend(12)])
  from visit_descend.prems(3) obtain ls' where ls: "ls = l # ls'" and ch: "chain (nextSub s) (nextSub s l) ls'"
    by (cases ls) auto
  from ls visit_descend.prems(4) have lG: "l \<in> set (G d)" by simp
  have mN: "m \<in> set N"
    using visit_descend.prems(1,2) lG visit_descend(1) by (auto simp: subs_ok_def split: option.splits)
  have so1: "subs_ok e N G s1" by (rule subs_ok_frame[OF fr1 visit_descend.prems(1)])
  have chm: "chain (nextSub s1) (subs s1 m) (G m)" using so1 mN by (simp add: subs_ok_def)
  show ?case
  proof (cases "x = m")
    case True
    have "lvl (Suc k) \<le> versionOrDirtyLevel s2 m'"
      by (rule visit_marks[OF visit_descend(8) chm])
         (use True visit_descend.prems(9,10) in \<open>simp_all add: walk_frame_fields[OF fr1]\<close>)
    then have "MaybeDirty \<le> versionOrDirtyLevel s4 m'" by (simp add: lv4)
    then show ?thesis by (rule raised_le[OF ra4])
  next
    case False
    then have z1: "versionOrDirtyLevel s1 x = NotDirty"
      using visit_descend.prems(7) unfolding visit_descend(7) by (simp add: mark_level)
    show ?thesis
    proof (cases "versionOrDirtyLevel s2 x = NotDirty")
      case False
      have "MaybeDirty \<le> versionOrDirtyLevel s2 m'"
        by (rule visit_descend.IH(1)[OF so1 mN chm subset_refl visit_descend.prems(5,6) z1 False
              visit_descend.prems(9)])
           (simp add: walk_frame_fields[OF fr1] visit_descend.prems(10))
      then have "MaybeDirty \<le> versionOrDirtyLevel s4 m'" by (simp add: lv4)
      then show ?thesis by (rule raised_le[OF ra4])
    next
      case True
      then have z4: "versionOrDirtyLevel s4 x = NotDirty" by (simp add: lv4)
      show ?thesis
        by (rule visit_descend.IH(2)[OF subs_ok_frame[OF fr visit_descend.prems(1)]
              visit_descend.prems(2) _ _ visit_descend.prems(5,6) z4 visit_descend.prems(8,9)])
           (use ch ls visit_descend.prems(4,10) in \<open>auto simp: walk_frame_fields[OF fr]\<close>)
    qed
  qed
qed

subsection \<open>The effect queue\<close>

lemma chain_unique: "chain nxt p xs \<Longrightarrow> chain nxt p ys \<Longrightarrow> xs = ys"
proof (induction xs arbitrary: p ys)
  case Nil
  then show ?case by simp
next
  case (Cons x xs)
  then show ?case by (cases ys) auto
qed

lemma chain_suffix: "chain nxt p (as @ l # bs) \<Longrightarrow> chain nxt (nxt l) bs"
  by (induction as arbitrary: p) auto

lemma chain_head_notin: "chain nxt (nxt l) ls \<Longrightarrow> l \<notin> set ls"
proof
  assume c: "chain nxt (nxt l) ls" and "l \<in> set ls"
  then obtain as bs where ls: "ls = as @ l # bs" by (meson split_list)
  with c have "chain nxt (nxt l) bs" by (simp add: chain_suffix)
  with c have "ls = bs" by (rule chain_unique)
  with ls show False by simp
qed

lemma chain_distinct: "chain nxt p ls \<Longrightarrow> distinct ls"
  by (induction ls arbitrary: p) (auto dest: chain_head_notin)

lemma chain_snoc:
  "chain nxt p q \<Longrightarrow> q \<noteq> [] \<Longrightarrow> m \<notin> set q \<Longrightarrow> nxt m = None \<Longrightarrow>
   chain (nxt(last q := Some m)) p (q @ [m])"
proof (induction q arbitrary: p)
  case Nil
  then show ?case by simp
next
  case (Cons a q)
  show ?case
  proof (cases "q = []")
    case True
    then show ?thesis using Cons.prems by auto
  next
    case False
    have pa: "p = Some a" and cq: "chain nxt (nxt a) q" using Cons.prems(1) by simp_all
    have "a \<notin> set q" using cq by (rule chain_head_notin)
    then have na: "a \<noteq> last q" using False by auto
    have mq: "m \<notin> set q" using Cons.prems(3) by simp
    have c: "chain (nxt(last q := Some m)) (nxt a) (q @ [m])"
      by (rule Cons.IH[OF cq False mq Cons.prems(4)])
    have e: "(nxt(last q := Some m)) a = nxt a" using na by simp
    have l: "last (a # q) = last q" using False by simp
    have "chain (nxt(last q := Some m)) p (a # (q @ [m]))"
      unfolding pa chain.simps e using c by blast
    then show ?thesis unfolding l append_Cons .
  qed
qed

lemma chain_upd_other: "a \<notin> set ls \<Longrightarrow> chain (nxt(a := v)) p ls = chain nxt p ls"
  by (induction ls arbitrary: p) auto

lemma queue_ok_cong:
  assumes "queue_ok e N s q" and "nextNotify s' = nextNotify s"
    and "queuedEffects s' = queuedEffects s" and "queuedEffectsTail s' = queuedEffectsTail s"
    and "raised s s'"
  shows "queue_ok e N s' q"
  using assms unfolding queue_ok_def raised_def by auto

lemma queue_ok_enqueue:
  assumes q: "queue_ok e N s q" and m: "m \<notin> set q" "nextNotify s m = None"
    "versionOrDirtyLevel s m \<noteq> NotDirty"
  shows "queue_ok e N (enqueue m s) (q @ [m])"
proof (cases q)
  case Nil
  then show ?thesis using q m by (auto simp: queue_ok_def enqueue_def)
next
  case (Cons a r)
  then have t: "queuedEffectsTail s = Some (last q)" and ne: "q \<noteq> []"
    using q by (auto simp: queue_ok_def)
  have c: "chain ((nextNotify s)(last q := Some m)) (queuedEffects s) (q @ [m])"
    using q m ne by (intro chain_snoc) (auto simp: queue_ok_def)
  have l: "last q \<in> set q" using ne by simp
  show ?thesis
    using q m c t l unfolding queue_ok_def enqueue_def
    by (auto simp del: last_in_set)
qed

lemma raisedD: "raised s s' \<Longrightarrow> versionOrDirtyLevel s' m = 0 \<Longrightarrow> versionOrDirtyLevel s m = 0"
  by (simp add: raised_def)

lemma visit_queue:
  "visit e d k s lk s' \<Longrightarrow> subs_ok e N G s \<Longrightarrow> d \<in> set N \<Longrightarrow> chain (nextSub s) lk ls \<Longrightarrow>
   set ls \<subseteq> set (G d) \<Longrightarrow> queue_ok e N s q \<Longrightarrow>
   \<exists>new. queue_ok e N s' (q @ new) \<and> distinct new \<and> set new = fresh_effects e N s s'"
proof (induction arbitrary: ls q rule: visit.induct)
  case (visit_end d k s)
  have "queue_ok e N s (q @ [])" using visit_end by simp
  moreover have "set [] = fresh_effects e N s s" by (simp add: fresh_effects_def)
  ultimately show ?case by (metis distinct.simps(1))
next
  case (visit_pass s l m s1 k s2 d s')
  have fr: "walk_frame s s2" unfolding visit_pass(3,4)
    by (auto intro: walk_frame_trans[OF walk_frame_mark walk_frame_enqueue] walk_frame_mark)
  from visit_pass.prems(3) obtain ls' where ls: "ls = l # ls'" and ch: "chain (nextSub s) (nextSub s l) ls'"
    by (cases ls) auto
  have ch2: "chain (nextSub s2) (nextSub s2 l) ls'" using ch by (simp add: walk_frame_fields[OF fr])
  have sub2: "set ls' \<subseteq> set (G d)" using ls visit_pass.prems(4) by simp
  have so2: "subs_ok e N G s2" by (rule subs_ok_frame[OF fr visit_pass.prems(1)])
  have mN: "m \<in> set N"
    using visit_pass.prems(1,2,4) ls visit_pass(1) by (auto simp: subs_ok_def split: option.splits)
  have q1: "queue_ok e N s1 q"
    unfolding visit_pass(3) by (rule queue_ok_cong[OF visit_pass.prems(5)]) (simp_all add: raised_mark)
  have ra2: "raised s2 s'" by (rule visit_raised[OF visit_pass(5)])
  have lv2: "versionOrDirtyLevel s2 = versionOrDirtyLevel (mark m (lvl k) s)"
    unfolding visit_pass(3,4) by simp
  show ?case
  proof (cases "versionOrDirtyLevel s m = NotDirty \<and> notify e m \<noteq> None")
    case True
    then have s2: "s2 = enqueue m s1" using visit_pass(4) by simp
    have nz1: "versionOrDirtyLevel s1 m \<noteq> NotDirty"
      unfolding visit_pass(3) using True lvl_pos[of k] by (simp add: mark_level)
    have mq: "m \<notin> set q" "nextNotify s1 m = None"
      using visit_pass.prems(5) mN True unfolding visit_pass(3) by (auto simp: queue_ok_def)
    have "queue_ok e N s2 (q @ [m])"
      unfolding s2 by (rule queue_ok_enqueue[OF q1 mq nz1])
    from visit_pass.IH[OF so2 visit_pass.prems(2) ch2 sub2 this]
    obtain new where n: "queue_ok e N s' ((q @ [m]) @ new)" "distinct new"
      "set new = fresh_effects e N s2 s'" by blast
    have nz2: "versionOrDirtyLevel s2 m \<noteq> NotDirty" using nz1 by (simp add: s2)
    have "m \<notin> set new" using n(3) nz2 by (simp add: fresh_effects_def)
    moreover have "set (m # new) = fresh_effects e N s s'"
      using n(3) True mN nz2 raisedD[OF ra2, of m] lvl_pos[of k]
      by (auto simp: fresh_effects_def lv2 mark_level)
    ultimately have "queue_ok e N s' (q @ (m # new)) \<and> distinct (m # new) \<and>
        set (m # new) = fresh_effects e N s s'" using n(1,2) by simp
    then show ?thesis by blast
  next
    case False
    then have s2: "s2 = s1" using visit_pass(4) by auto
    from visit_pass.IH[OF so2 visit_pass.prems(2) ch2 sub2] q1
    obtain new where n: "queue_ok e N s' (q @ new)" "distinct new"
      "set new = fresh_effects e N s2 s'" unfolding s2 by blast
    have "fresh_effects e N s2 s' = fresh_effects e N s s'"
      using False raisedD[OF ra2, of m] lvl_pos[of k]
      by (auto simp: fresh_effects_def lv2 mark_level split: if_splits)
    with n show ?thesis by auto
  qed
next
  case (visit_descend s l m d l0 s1 k s2 s3 s4 s')
  have fr1: "walk_frame s s1" unfolding visit_descend(7)
    by (rule walk_frame_trans[OF walk_frame_mark[of s m "lvl k"] walk_frame_scratch])
  have fr2: "walk_frame s1 s2" by (rule visit_frame[OF visit_descend(8)])
  have fr4: "walk_frame s2 s4" unfolding visit_descend(10,11)
    by (auto intro: walk_frame_trans[OF walk_frame_scratch walk_frame_enqueue] walk_frame_scratch)
  have fr: "walk_frame s s4" by (rule walk_frame_trans[OF fr1 walk_frame_trans[OF fr2 fr4]])
  have lv1: "versionOrDirtyLevel s1 = versionOrDirtyLevel (mark m (lvl k) s)"
    unfolding visit_descend(7) by simp
  have lv4: "versionOrDirtyLevel s4 = versionOrDirtyLevel s2" by (simp add: visit_descend(10,11))
  have ra1: "raised s s1"
    by (rule raised_trans[OF raised_mark[of s m k]]) (rule raised_same, simp add: lv1)
  have ra2: "raised s1 s2" by (rule visit_raised[OF visit_descend(8)])
  have ra4: "raised s4 s'" by (rule visit_raised[OF visit_descend(12)])
  have nz1: "versionOrDirtyLevel s1 m \<noteq> NotDirty"
    using visit_descend(3) lvl_pos[of k] by (simp add: lv1 mark_level)
  have nz2: "versionOrDirtyLevel s2 m \<noteq> NotDirty" using nz1 raisedD[OF ra2, of m] by auto
  from visit_descend.prems(3) obtain ls' where ls: "ls = l # ls'" and ch: "chain (nextSub s) (nextSub s l) ls'"
    by (cases ls) auto
  have ch4: "chain (nextSub s4) (nextSub s4 l) ls'" using ch by (simp add: walk_frame_fields[OF fr])
  have sub4: "set ls' \<subseteq> set (G d)" using ls visit_descend.prems(4) by simp
  have mN: "m \<in> set N"
    using visit_descend.prems(1,2,4) ls visit_descend(1) by (auto simp: subs_ok_def split: option.splits)
  have so1: "subs_ok e N G s1" by (rule subs_ok_frame[OF fr1 visit_descend.prems(1)])
  have so4: "subs_ok e N G s4" by (rule subs_ok_frame[OF fr visit_descend.prems(1)])
  have chm: "chain (nextSub s1) (subs s1 m) (G m)" using so1 mN by (simp add: subs_ok_def)
  have q1: "queue_ok e N s1 q"
    by (rule queue_ok_cong[OF visit_descend.prems(5) _ _ _ ra1]) (simp_all add: visit_descend(7))
  from visit_descend.IH(1)[OF so1 mN chm subset_refl q1]
  obtain new1 where n1: "queue_ok e N s2 (q @ new1)" "distinct new1"
    "set new1 = fresh_effects e N s1 s2" by blast
  have q3: "queue_ok e N s3 (q @ new1)"
    by (rule queue_ok_cong[OF n1(1)]) (simp_all add: visit_descend(10) raised_same)
  have mq: "m \<notin> set q" if "notify e m \<noteq> None"
    using visit_descend.prems(5) mN that visit_descend(3) by (auto simp: queue_ok_def)
  have mn1: "m \<notin> set new1" using n1(3) nz1 by (simp add: fresh_effects_def)
  define mid where "mid = (if notify e m \<noteq> None then [m] else [])"
  have q4: "queue_ok e N s4 (q @ new1 @ mid)"
  proof (cases "notify e m \<noteq> None")
    case True
    have "nextNotify s3 m = None"
      using q3 mN True mq[OF True] mn1 by (auto simp: queue_ok_def)
    moreover have "versionOrDirtyLevel s3 m \<noteq> NotDirty" using nz2 by (simp add: visit_descend(10))
    moreover have "m \<notin> set (q @ new1)" using mq[OF True] mn1 by simp
    ultimately have "queue_ok e N (enqueue m s3) ((q @ new1) @ [m])"
      by (intro queue_ok_enqueue[OF q3])
    then show ?thesis using True by (simp add: mid_def visit_descend(11))
  next
    case False
    then show ?thesis using q3 by (simp add: mid_def visit_descend(11))
  qed
  from visit_descend.IH(2)[OF so4 visit_descend.prems(2) ch4 sub4 q4]
  obtain new2 where n2: "queue_ok e N s' ((q @ new1 @ mid) @ new2)" "distinct new2"
    "set new2 = fresh_effects e N s4 s'" by blast
  have d: "distinct (new1 @ mid @ new2)"
    using n1(2,3) n2(2,3) mn1 nz2 by (auto simp: mid_def fresh_effects_def lv4)
  have nzs': "versionOrDirtyLevel s' m \<noteq> NotDirty"
    using nz2 raisedD[OF ra4, of m] by (auto simp: lv4)
  have "set (new1 @ mid @ new2) = fresh_effects e N s s'"
  proof (intro set_eqI iffI)
    fix x assume "x \<in> set (new1 @ mid @ new2)"
    then consider "x \<in> set new1" | "x \<in> set mid" | "x \<in> set new2" by auto
    then show "x \<in> fresh_effects e N s s'"
    proof cases
      case 1
      then show ?thesis
        using n1(3) raisedD[OF ra1, of x] raisedD[OF ra4, of x]
        by (auto simp: fresh_effects_def lv4)
    next
      case 2
      then show ?thesis using mN visit_descend(3) nzs'
        by (auto simp: mid_def fresh_effects_def split: if_splits)
    next
      case 3
      then show ?thesis
        using n2(3) raisedD[OF ra1, of x] raisedD[OF ra2, of x]
        by (auto simp: fresh_effects_def lv4)
    qed
  next
    fix x assume x: "x \<in> fresh_effects e N s s'"
    show "x \<in> set (new1 @ mid @ new2)"
    proof (cases "x = m")
      case True
      then show ?thesis using x by (auto simp: mid_def fresh_effects_def)
    next
      case False
      then have "versionOrDirtyLevel s1 x = NotDirty"
        using x by (auto simp: fresh_effects_def lv1 mark_level)
      then show ?thesis
        using x n1(3) n2(3) by (auto simp: fresh_effects_def lv4)
    qed
  qed
  with n2(1) d show ?case by (metis append.assoc)
qed

subsection \<open>The result of \<open>propagate\<close>\<close>

lemma subs_ok_bump:
  "subs_ok e N G (s\<lparr>depVersion := f\<rparr>) = subs_ok e N G s"
  by (simp add: subs_ok_def)

lemma slots_ok_bump:
  "slots_ok e N (s\<lparr>depVersion := f\<rparr>) = slots_ok e N s"
  by (simp add: slots_ok_def cong: option.case_cong)

lemma queue_ok_bump:
  "queue_ok e N (s\<lparr>depVersion := f\<rparr>) q = queue_ok e N s q"
  by (simp add: queue_ok_def)

lemma propagate_result:
  assumes so: "subs_ok e N G s" and sl: "slots_ok e N s" and ro: "root_ok e s d"
    and dN: "d \<in> set N" and qo: "queue_ok e N s q"
  shows "\<exists>s' new. propagate e d s = Some (Inr s') \<and>
           visit e d 0 (s\<lparr>depVersion := (depVersion s)(d := increment (depVersion s d))\<rparr>)
              (subs s d) s' \<and>
           walk_frame (s\<lparr>depVersion := (depVersion s)(d := increment (depVersion s d))\<rparr>) s' \<and>
           raised s s' \<and>
           prevPropagateOrNextReleased s' = prevPropagateOrNextReleased s \<and>
           subs_ok e N G s' \<and> slots_ok e N s' \<and>
           queue_ok e N s' (q @ new) \<and> distinct new \<and> set new = fresh_effects e N s s'"
proof -
  let ?s1 = "s\<lparr>depVersion := (depVersion s)(d := increment (depVersion s d))\<rparr>"
  have so1: "subs_ok e N G ?s1" using so by (simp add: subs_ok_bump)
  have sl1: "slots_ok e N ?s1" using sl by (simp add: slots_ok_bump)
  have qo1: "queue_ok e N ?s1 q" using qo by (simp add: queue_ok_bump)
  have ch: "chain (nextSub ?s1) (subs ?s1 d) (G d)" using so1 dN by (simp add: subs_ok_def)
  have lt: "work e N G ?s1 + length (G d) < Suc (work e N G ?s1 + length (G d))" by (rule lessI)
  from visit_exists_aux[OF lt so1 sl1 dN ch subset_refl, of 0]
  obtain s' where v: "visit e d 0 ?s1 (subs ?s1 d) s'" and sl': "slots_ok e N s'"
    and sc: "prevPropagateOrNextReleased s' = prevPropagateOrNextReleased ?s1"
    and ra: "raised ?s1 s'" by blast
  have fr: "walk_frame ?s1 s'" by (rule visit_frame[OF v])
  have "propagate e d s = propagate_loop e (?s1, Some d, subs ?s1 d, lvl 0, int 0)"
    by (simp add: propagate_def Let_def)
  also have "\<dots> = propagate_loop e (s', Some d, None, lvl 0, int 0)"
    by (rule visit_loop[OF v])
  also have "\<dots> = Some (Inr s')"
  proof (rule propagate_loop_Done)
    have "deps s' = deps s" using walk_frame_fields(3)[OF fr] by simp
    then show "propagate_step e (s', Some d, None, lvl 0, int 0) = Done (Inr s')"
      using ro sc by (auto simp: propagate_step_def root_ok_def split: option.splits)
  qed
  finally have p: "propagate e d s = Some (Inr s')" .
  from visit_queue[OF v so1 dN ch subset_refl qo1]
  obtain new where n: "queue_ok e N s' (q @ new)" "distinct new"
    "set new = fresh_effects e N ?s1 s'" by blast
  have "fresh_effects e N ?s1 s' = fresh_effects e N s s'" by (simp add: fresh_effects_def)
  moreover have "raised s s'" using ra by (simp add: raised_def)
  moreover have "subs_ok e N G s'" by (rule subs_ok_frame[OF fr so1])
  ultimately show ?thesis using p v fr sl' sc n by auto
qed

lemma reach_marked:
  assumes r: "reach e G s d k m"
    and v: "visit e d 0 s1 (subs s1 d) s'"
    and so: "subs_ok e N G s1" and dN: "d \<in> set N"
    and eq: "sub s1 = sub s" "versionOrDirtyLevel s1 = versionOrDirtyLevel s"
  shows "m \<in> set N \<and> lvl k \<le> versionOrDirtyLevel s' m"
  using r
proof (induction rule: reach.induct)
  case (reach_direct l m)
  have ch: "chain (nextSub s1) (subs s1 d) (G d)" using so dN by (simp add: subs_ok_def)
  have "lvl 0 \<le> versionOrDirtyLevel s' m"
    by (rule visit_marks[OF v ch reach_direct(1)]) (simp add: eq reach_direct(2))
  moreover have "m \<in> set N"
    using so dN reach_direct by (auto simp: subs_ok_def eq split: option.splits)
  ultimately show ?case by simp
next
  case (reach_deeper k n l m)
  then have nN: "n \<in> set N" and ln: "lvl k \<le> versionOrDirtyLevel s' n" by simp_all
  have ch: "chain (nextSub s1) (subs s1 d) (G d)" using so dN by (simp add: subs_ok_def)
  have nz: "versionOrDirtyLevel s' n \<noteq> NotDirty" using ln lvl_pos(1)[of k] by simp
  have "MaybeDirty \<le> versionOrDirtyLevel s' m"
    by (rule visit_closure[OF v so dN ch subset_refl nN reach_deeper(2) _ nz reach_deeper(4)])
       (simp_all add: eq reach_deeper)
  moreover have "m \<in> set N"
    using so nN reach_deeper(4,5) by (auto simp: subs_ok_def eq split: option.splits)
  ultimately show ?case by simp
qed



section \<open>Batches\<close>

lemma quietD:
  assumes "quiet f"
  obtains s' where "f s = Inr s'" "batchDepth s' = batchDepth s" "queuedEffects s' = queuedEffects s"
    "queuedEffectsTail s' = queuedEffectsTail s" "nextNotify s' = nextNotify s" "trace s' = trace s"
proof -
  from assms have "case f s of Inl er \<Rightarrow> False
          | Inr s' \<Rightarrow> batchDepth s' = batchDepth s \<and> queuedEffects s' = queuedEffects s \<and>
                     queuedEffectsTail s' = queuedEffectsTail s \<and>
                     nextNotify s' = nextNotify s \<and> trace s' = trace s"
    unfolding quiet_def by blast
  then show ?thesis using that by (cases "f s") auto
qed

lemma endBatch_loop_drain:
  "chain (nextNotify s) (queuedEffects s) q \<Longrightarrow> batchDepth s = 0 \<Longrightarrow>
   \<forall>m \<in> set q. \<exists>f. notify e m = Some f \<and> quiet f \<Longrightarrow>
   \<exists>s'. endBatch_loop e s = Some (Inr s') \<and> trace s' = trace s @ map Notify q \<and>
        queuedEffects s' = None \<and> batchDepth s' = 0"
proof (induction q arbitrary: s)
  case Nil
  then have "queuedEffects s = None" by simp
  then have "endBatch_loop e s = Some (Inr s)"
    using Nil.prems(2) by (subst endBatch_loop.simps) simp
  then show ?case using Nil by simp
next
  case (Cons a r)
  then have h: "queuedEffects s = Some a" and c: "chain (nextNotify s) (nextNotify s a) r"
    by simp_all
  from Cons.prems(3) obtain f where f: "notify e a = Some f" "quiet f" by auto
  define s1 where "s1 = (case nextNotify s a of
                          Some queuedNext \<Rightarrow>
                            s\<lparr>nextNotify := (nextNotify s)(a := None),
                               queuedEffects := Some queuedNext\<rparr>
                        | None \<Rightarrow> s\<lparr>queuedEffects := None, queuedEffectsTail := None\<rparr>)"
  have an: "a \<notin> set r" using c by (rule chain_head_notin)
  have c1: "chain (nextNotify s1) (queuedEffects s1) r"
  proof (cases "nextNotify s a")
    case None
    then show ?thesis using c by (simp add: s1_def)
  next
    case (Some n)
    then show ?thesis using c an by (simp add: s1_def chain_upd_other)
  qed
  have b1: "batchDepth s1 = 0" "trace s1 = trace s"
    using Cons.prems(2) by (simp_all add: s1_def split: option.splits)
  from quietD[OF f(2), of "s1\<lparr>trace := trace s1 @ [Notify a]\<rparr>"]
  obtain s2 where s2: "f (s1\<lparr>trace := trace s1 @ [Notify a]\<rparr>) = Inr s2"
    "batchDepth s2 = batchDepth s1" "queuedEffects s2 = queuedEffects s1"
    "nextNotify s2 = nextNotify s1" "trace s2 = trace s1 @ [Notify a]"
    by auto
  have "endBatch_loop e s = endBatch_loop e s2"
    using h f(1) s2(1) Cons.prems(2)
    by (subst endBatch_loop.simps) (simp add: s1_def[symmetric] call_def Let_def)
  moreover have "\<exists>s'. endBatch_loop e s2 = Some (Inr s') \<and> trace s' = trace s2 @ map Notify r \<and>
        queuedEffects s' = None \<and> batchDepth s' = 0"
    by (rule Cons.IH) (use c1 s2 b1 Cons.prems(3) in simp_all)
  ultimately show ?case using s2(5) b1(2) by auto
qed

lemma count_list_distinct: "distinct xs \<Longrightarrow> x \<in> set xs \<Longrightarrow> count_list xs x = 1"
  by (induction xs) (auto simp: count_list_0_iff)

lemma count_list_Notify: "count_list (map Notify xs) (Notify x) = count_list xs x"
  by (induction xs) auto

lemma wf_batchDepth:
  "subs_ok e N G (s\<lparr>batchDepth := b\<rparr>) = subs_ok e N G s"
  "slots_ok e N (s\<lparr>batchDepth := b\<rparr>) = slots_ok e N s"
  "root_ok e (s\<lparr>batchDepth := b\<rparr>) d = root_ok e s d"
  "queue_ok e N (s\<lparr>batchDepth := b\<rparr>) q = queue_ok e N s q"
  by (simp_all add: subs_ok_def slots_ok_def root_ok_def queue_ok_def cong: option.case_cong)

lemma fresh_effects_batchDepth:
  "fresh_effects e N (s\<lparr>batchDepth := b\<rparr>) s' = fresh_effects e N s s'"
  by (simp add: fresh_effects_def)

lemma batch_run:
  assumes so: "subs_ok e N G s" and sl: "slots_ok e N s"
    and ro: "root_ok e s d1" "root_ok e s d2" and dN: "d1 \<in> set N" "d2 \<in> set N"
    and qo: "queue_ok e N s q"
    and re: "reach e G s d1 k E" and nE: "notify e E \<noteq> None" and zE: "versionOrDirtyLevel s E = NotDirty"
  shows "\<exists>s1 s2 Q. propagate e d1 (startBatch s) = Some (Inr s1) \<and>
           propagate e d2 s1 = Some (Inr s2) \<and>
           trace s2 = trace s \<and> batchDepth s2 = increment (batchDepth s) \<and>
           queue_ok e N s2 Q \<and> count_list Q E = 1 \<and> set Q \<subseteq> set q \<union> {m \<in> set N. notify e m \<noteq> None}"
proof -
  let ?s0 = "startBatch s"
  let ?s0' = "?s0\<lparr>depVersion := (depVersion ?s0)(d1 := increment (depVersion ?s0 d1))\<rparr>"
  have w0: "subs_ok e N G ?s0" "slots_ok e N ?s0" "root_ok e ?s0 d1" "root_ok e ?s0 d2"
    "queue_ok e N ?s0 q"
    using so sl ro qo by (simp_all add: startBatch_def wf_batchDepth)
  from propagate_result[OF w0(1,2,3) dN(1) w0(5)]
  obtain s1 new1 where p1: "propagate e d1 ?s0 = Some (Inr s1)"
    and v1: "visit e d1 0 ?s0' (subs ?s0 d1) s1"
    and fr1: "walk_frame ?s0' s1"
    and sc1: "prevPropagateOrNextReleased s1 = prevPropagateOrNextReleased ?s0"
    and w1: "subs_ok e N G s1" "slots_ok e N s1"
    and q1: "queue_ok e N s1 (q @ new1)" "distinct new1" "set new1 = fresh_effects e N ?s0 s1"
    by blast
  have so0': "subs_ok e N G ?s0'" using w0(1) by (simp add: subs_ok_bump)
  have v1': "visit e d1 0 ?s0' (subs ?s0' d1) s1" using v1 by simp
  have "E \<in> set N \<and> lvl k \<le> versionOrDirtyLevel s1 E"
    by (rule reach_marked[OF re v1' so0' dN(1)]) (simp_all add: startBatch_def)
  then have EN: "E \<in> set N" and nz1: "versionOrDirtyLevel s1 E \<noteq> NotDirty"
    using lvl_pos(1)[of k] by auto
  have E1: "E \<in> set new1"
    using EN nz1 nE zE by (simp add: q1(3) fresh_effects_def startBatch_def)
  have Eq: "E \<notin> set q" using qo EN nE zE by (auto simp: queue_ok_def)
  have ro1: "root_ok e s1 d2"
    using w0(4) sc1 walk_frame_fields(3)[OF fr1] by (simp add: root_ok_def cong: option.case_cong)
  from propagate_result[OF w1 ro1 dN(2) q1(1)]
  obtain s2 new2 where p2: "propagate e d2 s1 = Some (Inr s2)"
    and fr2: "walk_frame (s1\<lparr>depVersion := (depVersion s1)(d2 := increment (depVersion s1 d2))\<rparr>) s2"
    and q2: "queue_ok e N s2 ((q @ new1) @ new2)" "set new2 = fresh_effects e N s1 s2"
    by blast
  have E2: "E \<notin> set new2" using nz1 by (simp add: q2(2) fresh_effects_def)
  have t: "trace s2 = trace s" "batchDepth s2 = increment (batchDepth s)"
    using walk_frame_fields(6,7)[OF fr1] walk_frame_fields(6,7)[OF fr2]
    by (simp_all add: startBatch_def)
  have c: "count_list ((q @ new1) @ new2) E = 1"
    using Eq E1 E2 q1(2) by (simp add: count_list_distinct count_list_0_iff)
  have "set ((q @ new1) @ new2) \<subseteq> set q \<union> {m \<in> set N. notify e m \<noteq> None}"
    by (auto simp: q1(3) q2(2) fresh_effects_def)
  with p1 p2 t q2(1) c show ?thesis by blast
qed

lemmas ex_requeue_defs = ex_requeue7_def ex_requeue6_def ex_requeue5_def ex_requeue4_def
  ex_requeue3_def ex_requeue2_def ex_requeue1_def

text \<open>
  Claim C6. \<open>propagate\<close> queues an effect that it finds NotDirty; the dirty level
  is all that tells it whether the effect is in the queue. \<open>endTrack\<close> sets an
  effect to NotDirty whether or not it is queued. In the store \<open>ex_requeue4\<close>,
  reached from the diamond by calls of the engine, the effect 3 is NotDirty and queued,
  and the graph is well formed. In the batch both \<open>propagate\<close> calls reach the
  effect, the first queues it a second time, and \<open>endBatch\<close> calls its
  \<open>notify\<close> twice, not once.
\<close>

theorem batch_requeued_effect_counterexample:
  "propagate ex_env 1 ex_diamond = Some (Inr ex_requeue1) \<and>
   link 1 True (snd (startTrack 3 ex_requeue1)) = Inr ex_requeue2 \<and>
   link 2 True ex_requeue2 = Inr ex_requeue3 \<and>
   endTrack ex_env 3 None ex_requeue3 = Some (Inr ex_requeue4) \<and>
   versionOrDirtyLevel ex_requeue4 3 = NotDirty \<and>
   queuedEffects ex_requeue4 = Some 3 \<and> queuedEffectsTail ex_requeue4 = Some 3 \<and>
   nextNotify ex_requeue4 3 = None \<and>
   batchDepth ex_requeue4 = 0 \<and> trace ex_requeue4 = [] \<and>
   subs_ok ex_env [0, 1, 2, 3] ex_diamond_G ex_requeue4 \<and>
   slots_ok ex_env [0, 1, 2, 3] ex_requeue4 \<and>
   root_ok ex_env ex_requeue4 1 \<and> root_ok ex_env ex_requeue4 2 \<and>
   reach ex_env ex_diamond_G ex_requeue4 1 0 3 \<and> reach ex_env ex_diamond_G ex_requeue4 2 0 3 \<and>
   propagate ex_env 1 (startBatch ex_requeue4) = Some (Inr ex_requeue5) \<and>
   propagate ex_env 2 ex_requeue5 = Some (Inr ex_requeue6) \<and>
   trace ex_requeue6 = [] \<and>
   endBatch ex_env ex_requeue6 = Some (Inr ex_requeue7) \<and>
   trace ex_requeue7 = [Notify 3, Notify 3]"
proof -
  have run: "propagate ex_env 1 ex_diamond = Some (Inr ex_requeue1) \<and>
   link 1 True (snd (startTrack 3 ex_requeue1)) = Inr ex_requeue2 \<and>
   link 2 True ex_requeue2 = Inr ex_requeue3 \<and>
   endTrack ex_env 3 None ex_requeue3 = Some (Inr ex_requeue4) \<and>
   versionOrDirtyLevel ex_requeue4 3 = NotDirty \<and>
   queuedEffects ex_requeue4 = Some 3 \<and> queuedEffectsTail ex_requeue4 = Some 3 \<and>
   nextNotify ex_requeue4 3 = None \<and>
   batchDepth ex_requeue4 = 0 \<and> trace ex_requeue4 = [] \<and>
   propagate ex_env 1 (startBatch ex_requeue4) = Some (Inr ex_requeue5) \<and>
   propagate ex_env 2 ex_requeue5 = Some (Inr ex_requeue6) \<and>
   trace ex_requeue6 = [] \<and>
   endBatch ex_env ex_requeue6 = Some (Inr ex_requeue7) \<and>
   trace ex_requeue7 = [Notify 3, Notify 3]"
    unfolding ex_requeue_defs
    by (simp add: propagate_def propagate_loop.simps propagate_step_def enqueue_def
        link_def link_new_def link_reuse_def Link_get_def startTrack_def preTrack_def
        endTrack_def postTrack_def releaseDeps_def releaseDeps_loop.simps release_def
        unlinkSub_def startBatch_def endBatch_def endBatch_loop.simps call_def quiet_cb_def
        increment_def decrement_def ex_diamond_def ex_env_def empty_state_def Let_def)
  have wf: "subs_ok ex_env [0, 1, 2, 3] ex_diamond_G ex_requeue4 \<and>
   slots_ok ex_env [0, 1, 2, 3] ex_requeue4 \<and>
   root_ok ex_env ex_requeue4 1 \<and> root_ok ex_env ex_requeue4 2"
    and sb: "sub ex_requeue4 2 = Some 3" "sub ex_requeue4 3 = Some 3"
    unfolding ex_requeue_defs
    by (simp_all add: subs_ok_def slots_ok_def root_ok_def ex_diamond_G_def
        propagate_def propagate_loop.simps propagate_step_def enqueue_def
        link_def link_new_def link_reuse_def Link_get_def startTrack_def preTrack_def
        endTrack_def postTrack_def releaseDeps_def releaseDeps_loop.simps release_def
        unlinkSub_def increment_def decrement_def ex_diamond_def ex_env_def empty_state_def
        Let_def)
  have r1: "reach ex_env ex_diamond_G ex_requeue4 1 0 3"
    by (rule reach_direct[of 2]) (simp_all add: ex_diamond_G_def sb)
  have r2: "reach ex_env ex_diamond_G ex_requeue4 2 0 3"
    by (rule reach_direct[of 3]) (simp_all add: ex_diamond_G_def sb)
  from run wf r1 r2 show ?thesis by simp
qed

text \<open>
  The queue as a whole has to be free of NotDirty effects, not only of the effect in
  question. In the store \<open>ex_lost\<close> the effect 2 is NotDirty and not queued, and
  the effect 3 is NotDirty and queued. The first \<open>propagate\<close> queues 2 behind 3,
  queues 3 again behind 2, and then queues 4 behind 3, which cuts 2 off the queue:
  \<open>endBatch\<close> calls the \<open>notify\<close> of 3 and of 4, and that of 2 never.
\<close>

lemma queued_effect_cuts_off_another:
  "versionOrDirtyLevel ex_lost 2 = NotDirty \<and> queuedEffects ex_lost = Some 3 \<and>
   nextNotify ex_lost 3 = None \<and> versionOrDirtyLevel ex_lost 3 = NotDirty \<and>
   propagate ex_effects_env 0 (startBatch ex_lost) = Some (Inr ex_lost1) \<and>
   propagate ex_effects_env 1 ex_lost1 = Some (Inr ex_lost2) \<and>
   versionOrDirtyLevel ex_lost2 2 = Dirty \<and>
   endBatch ex_effects_env ex_lost2 = Some (Inr ex_lost3) \<and>
   trace ex_lost3 = [Notify 3, Notify 4] \<and> queuedEffects ex_lost3 = None"
  unfolding ex_lost3_def ex_lost2_def ex_lost1_def
  by (simp add: propagate_def propagate_loop.simps propagate_step_def enqueue_def
      startBatch_def endBatch_def endBatch_loop.simps call_def quiet_cb_def
      increment_def decrement_def
      ex_lost_def ex_effects_env_def empty_state_def Let_def)

text \<open>
  Claim C6, as amended. Let the graph and the queue be well formed, with no NotDirty
  effect in the queue; let an effect be NotDirty, let a first dependency reach it, and
  let the \<open>notify\<close> methods of the effects be quiet. After \<open>startBatch\<close>, a
  \<open>propagate\<close> on the first dependency and a \<open>propagate\<close> on any second
  one, no method has been called. The matching \<open>endBatch\<close> returns; if it closes
  the outermost batch, it has called \<open>notify\<close> of the effect exactly once and
  emptied the queue; if the batch depth was not 0 at \<open>startBatch\<close>, the batch
  being nested in another, it has called nothing and the effect is in the queue exactly
  once, for the outer \<open>endBatch\<close>.
\<close>

theorem batch_coalesces:
  assumes "subs_ok e N G s" and "slots_ok e N s"
    and "root_ok e s d1" and "root_ok e s d2" and "d1 \<in> set N" and "d2 \<in> set N"
    and "queue_ok e N s q"
    and "reach e G s d1 k E" and "notify e E \<noteq> None" and "versionOrDirtyLevel s E = NotDirty"
    and cb: "\<forall>m \<in> set q \<union> set N. \<forall>f. notify e m = Some f \<longrightarrow> quiet f"
    and qn: "\<forall>m \<in> set q. notify e m \<noteq> None"
  shows "\<exists>s1 s2 s3. propagate e d1 (startBatch s) = Some (Inr s1) \<and>
           propagate e d2 s1 = Some (Inr s2) \<and> endBatch e s2 = Some (Inr s3) \<and>
           trace s2 = trace s \<and>
           (batchDepth s = 0 \<longrightarrow>
              (\<exists>evs. trace s3 = trace s @ evs \<and> count_list evs (Notify E) = 1) \<and>
              queuedEffects s3 = None) \<and>
           (batchDepth s \<noteq> 0 \<longrightarrow>
              trace s3 = trace s \<and> (\<exists>Q. queue_ok e N s3 Q \<and> count_list Q E = 1))"
proof -
  from batch_run[OF assms(1-10)]
  obtain s1 s2 Q where p: "propagate e d1 (startBatch s) = Some (Inr s1)"
    "propagate e d2 s1 = Some (Inr s2)"
    and t: "trace s2 = trace s" "batchDepth s2 = increment (batchDepth s)"
    and q: "queue_ok e N s2 Q" "count_list Q E = 1"
      "set Q \<subseteq> set q \<union> {m \<in> set N. notify e m \<noteq> None}"
    by blast
  let ?s2 = "s2\<lparr>batchDepth := decrement (batchDepth s2)\<rparr>"
  have q': "queue_ok e N ?s2 Q" using q(1) by (simp add: wf_batchDepth)
  show ?thesis
  proof (cases "batchDepth s = 0")
    case True
    have c: "chain (nextNotify ?s2) (queuedEffects ?s2) Q" using q' by (simp add: queue_ok_def)
    have b0: "batchDepth ?s2 = 0" using t(2) True decrement_increment_zero[of 0] by simp
    have cbs: "\<forall>m \<in> set Q. \<exists>f. notify e m = Some f \<and> quiet f"
      using q(3) cb qn by fastforce
    from endBatch_loop_drain[OF c b0 cbs]
    obtain s3 where "endBatch_loop e ?s2 = Some (Inr s3)" "trace s3 = trace ?s2 @ map Notify Q"
      "queuedEffects s3 = None" by blast
    then have r: "endBatch e s2 = Some (Inr s3)" "trace s3 = trace s @ map Notify Q"
      "queuedEffects s3 = None" "count_list (map Notify Q) (Notify E) = 1"
      using t(1) q(2) by (simp_all add: endBatch_def count_list_Notify)
    then have "\<exists>evs. trace s3 = trace s @ evs \<and> count_list evs (Notify E) = 1" by blast
    then show ?thesis using p t(1) True r(1,3) by auto
  next
    case False
    then have pos: "batchDepth s \<noteq> 0" by simp
    have "batchDepth ?s2 \<noteq> 0" using t(2) pos decrement_increment_zero by simp
    then have "endBatch_loop e ?s2 = Some (Inr ?s2)"
      by (subst endBatch_loop.simps) simp
    then have "endBatch e s2 = Some (Inr ?s2)" by (simp add: endBatch_def)
    moreover have "trace ?s2 = trace s" using t(1) by simp
    moreover have "\<exists>Q. queue_ok e N ?s2 Q \<and> count_list Q E = 1" using q' q(2) by blast
    ultimately show ?thesis using p t(1) False by auto
  qed
qed

lemma quiet_quiet_cb: "quiet quiet_cb"
  by (simp add: quiet_def quiet_cb_def)

theorem batch_coalesces_witness:
  "subs_ok ex_env [0, 1, 2, 3] ex_diamond_G ex_diamond \<and> slots_ok ex_env [0, 1, 2, 3] ex_diamond \<and>
   root_ok ex_env ex_diamond 1 \<and> root_ok ex_env ex_diamond 2 \<and>
   queue_ok ex_env [0, 1, 2, 3] ex_diamond [] \<and>
   reach ex_env ex_diamond_G ex_diamond 1 0 3 \<and> reach ex_env ex_diamond_G ex_diamond 2 0 3 \<and>
   notify ex_env 3 \<noteq> None \<and> versionOrDirtyLevel ex_diamond 3 = NotDirty \<and>
   batchDepth ex_diamond = 0 \<and>
   (\<exists>s1 s2 s3. propagate ex_env 1 (startBatch ex_diamond) = Some (Inr s1) \<and>
       propagate ex_env 2 s1 = Some (Inr s2) \<and> endBatch ex_env s2 = Some (Inr s3) \<and>
       trace s2 = trace ex_diamond \<and>
       (\<exists>evs. trace s3 = trace ex_diamond @ evs \<and> count_list evs (Notify 3) = 1))"
proof -
  have h: "subs_ok ex_env [0, 1, 2, 3] ex_diamond_G ex_diamond" "slots_ok ex_env [0, 1, 2, 3] ex_diamond"
    "root_ok ex_env ex_diamond 1" "root_ok ex_env ex_diamond 2"
    "1 \<in> set [0, 1, 2, 3::nat]" "2 \<in> set [0, 1, 2, 3::nat]"
    "queue_ok ex_env [0, 1, 2, 3] ex_diamond []"
    by (simp_all add: subs_ok_def slots_ok_def root_ok_def queue_ok_def ex_diamond_def ex_diamond_G_def
        ex_env_def empty_state_def)
  have r1: "reach ex_env ex_diamond_G ex_diamond 1 0 3"
    by (rule reach_direct[of 2]) (simp_all add: ex_diamond_def ex_diamond_G_def empty_state_def)
  have r2: "reach ex_env ex_diamond_G ex_diamond 2 0 3"
    by (rule reach_direct[of 3]) (simp_all add: ex_diamond_def ex_diamond_G_def empty_state_def)
  have e3: "notify ex_env 3 \<noteq> None" "versionOrDirtyLevel ex_diamond 3 = NotDirty"
    by (simp_all add: ex_env_def ex_diamond_def empty_state_def)
  have cb: "\<forall>m \<in> set [] \<union> set [0, 1, 2, 3::nat]. \<forall>f. notify ex_env m = Some f \<longrightarrow> quiet f"
    by (simp add: ex_env_def quiet_quiet_cb)
  have qn: "\<forall>m \<in> set ([]::nat list). notify ex_env m \<noteq> None" by simp
  have b: "batchDepth ex_diamond = 0" by (simp add: ex_diamond_def empty_state_def)
  from batch_coalesces[OF h r1 e3 cb qn] b
  have "\<exists>s1 s2 s3. propagate ex_env 1 (startBatch ex_diamond) = Some (Inr s1) \<and>
       propagate ex_env 2 s1 = Some (Inr s2) \<and> endBatch ex_env s2 = Some (Inr s3) \<and>
       trace s2 = trace ex_diamond \<and>
       (\<exists>evs. trace s3 = trace ex_diamond @ evs \<and> count_list evs (Notify 3) = 1)"
    by auto
  then show ?thesis using h r1 r2 e3 b by blast
qed

section \<open>Properties of \<open>Link.release\<close>\<close>

lemma back_chain_head:
  "back_chain prv p ls \<Longrightarrow> l \<in> set ls \<Longrightarrow> prv l = None \<Longrightarrow> p = None \<and> l = hd ls"
proof (induction ls arbitrary: p)
  case Nil
  then show ?case by simp
next
  case (Cons a ls)
  show ?case
  proof (cases "l = a")
    case True
    then show ?thesis using Cons.prems by simp
  next
    case False
    then have "l \<in> set ls" using Cons.prems(2) by simp
    from Cons.IH[OF _ this Cons.prems(3), of "Some a"] Cons.prems(1)
    show ?thesis by simp
  qed
qed

lemma unlinkSub_trace:
  assumes sl: "subs_list s d ls" and l: "l \<in> set ls" and dl: "dep s l = Some d"
    and cb: "\<forall>f. notifyLostSubs e d = Some f \<longrightarrow> returns_silently f"
  shows "\<exists>s'. unlinkSub e l s = Inr s' \<and>
           trace s' = trace s @ (if ls = [l] \<and> notifyLostSubs e d \<noteq> None then [LostSubs d] else [])"
proof -
  from l obtain a r where ls: "ls = a # r" by (cases ls) auto
  with sl have hd: "subs s d = Some a" and ch: "chain (nextSub s) (nextSub s a) r"
    and bc: "back_chain (prevSubOrUpdate s) None ls"
    by (simp_all add: subs_list_def)
  define nx where "nx = nextSub s l"
  define pv where "pv = prevSubOrUpdate s l"
  define s1 where "s1 = (case nx of Some n \<Rightarrow> s\<lparr>prevSubOrUpdate := (prevSubOrUpdate s)(n := pv)\<rparr>
                | None \<Rightarrow> s)"
  define s2 where "s2 = (case pv of Some p \<Rightarrow> s1\<lparr>nextSub := (nextSub s1)(p := nx)\<rparr>
                | None \<Rightarrow> s1)"
  define s3 where "s3 = (if nx = None then s2\<lparr>subsTail := (subsTail s2)(d := pv)\<rparr> else s2)"
  define s4 where "s4 = (if pv = None then s3\<lparr>subs := (subs s3)(d := nx)\<rparr> else s3)"
  define s5 where "s5 = s4\<lparr>sub := (sub s4)(l := None),
                          prevSubOrUpdate := (prevSubOrUpdate s4)(l := None),
                          nextSub := (nextSub s4)(l := None)\<rparr>"
  have u: "unlinkSub e l s =
             (if subs s5 d = None
                 then (case notifyLostSubs e d of
                         Some f \<Rightarrow> call f (LostSubs d) s5
                       | None \<Rightarrow> Inr s5)
                 else Inr s5)"
    unfolding unlinkSub_def Let_def s5_def s4_def s3_def s2_def s1_def nx_def pv_def
    by (simp add: dl)
  have t5: "trace s5 = trace s"
    unfolding s5_def s4_def s3_def s2_def s1_def by (simp split: option.splits)
  have subs5: "subs s5 d = (if pv = None then nx else subs s d)"
    unfolding s5_def s4_def s3_def s2_def s1_def by (simp split: option.splits)
  have e: "subs s5 d = None \<longleftrightarrow> ls = [l]"
  proof (cases "pv = None")
    case True
    then have "l = a" using back_chain_head[OF bc l] ls by (simp add: pv_def)
    then have "nx = None \<longleftrightarrow> r = []" using ch by (cases r) (auto simp: nx_def)
    then show ?thesis using True subs5 ls \<open>l = a\<close> by simp
  next
    case False
    then have "ls \<noteq> [l]" using bc by (auto simp: pv_def)
    then show ?thesis using False subs5 hd by auto
  qed
  show ?thesis
  proof (cases "ls = [l]")
    case False
    then show ?thesis using u e t5 by simp
  next
    case True
    show ?thesis
    proof (cases "notifyLostSubs e d")
      case None
      then show ?thesis using u e t5 True by simp
    next
      case (Some f)
      with cb have "returns_silently f" by simp
      then have "case f (s5\<lparr>trace := trace s5 @ [LostSubs d]\<rparr>) of Inl er \<Rightarrow> False
            | Inr s' \<Rightarrow> trace s' = trace (s5\<lparr>trace := trace s5 @ [LostSubs d]\<rparr>)"
        unfolding returns_silently_def by blast
      then obtain s' where "f (s5\<lparr>trace := trace s5 @ [LostSubs d]\<rparr>) = Inr s'"
        "trace s' = trace s5 @ [LostSubs d]"
        by (cases "f (s5\<lparr>trace := trace s5 @ [LostSubs d]\<rparr>)") auto
      then show ?thesis using u e t5 True Some by (simp add: call_def)
    qed
  qed
qed

text \<open>
  Claim C9. Let the link be in the subscriber list of its dependency. \<open>Link.release\<close>
  returns, and during it the dependency's \<open>notifyLostSubs\<close> has been called exactly
  once if the link was the only one of the list, so that its removal leaves the list
  empty; if another subscriber remains, the method has not been called.
\<close>

theorem release_notifies_lost_subs:
  assumes "subs_list s d ls" and "l \<in> set ls" and "dep s l = Some d"
    and "\<forall>f. notifyLostSubs e d = Some f \<longrightarrow> returns_silently f"
  shows "\<exists>s'. release e l s = Inr s' \<and>
           trace s' = trace s @ (if ls = [l] \<and> notifyLostSubs e d \<noteq> None then [LostSubs d] else [])"
proof -
  from unlinkSub_trace[OF assms]
  obtain s1 where "unlinkSub e l s = Inr s1"
    "trace s1 = trace s @ (if ls = [l] \<and> notifyLostSubs e d \<noteq> None then [LostSubs d] else [])"
    by blast
  then show ?thesis by (simp add: release_def)
qed

lemma returns_silently_quiet_cb: "returns_silently quiet_cb"
  by (simp add: returns_silently_def quiet_cb_def)

theorem release_notifies_lost_subs_witness:
  "subs_list ex_diamond 1 [2] \<and> dep ex_diamond 2 = Some 1 \<and>
   subs_list ex_diamond 0 [0, 1] \<and> dep ex_diamond 1 = Some 0 \<and>
   (\<exists>s'. release ex_env_lost 2 ex_diamond = Inr s' \<and> trace s' = trace ex_diamond @ [LostSubs 1]) \<and>
   (\<exists>s'. release ex_env_lost 1 ex_diamond = Inr s' \<and> trace s' = trace ex_diamond)"
proof -
  have a: "subs_list ex_diamond 1 [2]" "2 \<in> set [2::nat]" "dep ex_diamond 2 = Some 1"
    "\<forall>f. notifyLostSubs ex_env_lost 1 = Some f \<longrightarrow> returns_silently f"
    by (simp_all add: subs_list_def ex_diamond_def empty_state_def ex_env_lost_def
        returns_silently_quiet_cb)
  have b: "subs_list ex_diamond 0 [0, 1]" "1 \<in> set [0, 1::nat]" "dep ex_diamond 1 = Some 0"
    "\<forall>f. notifyLostSubs ex_env_lost 0 = Some f \<longrightarrow> returns_silently f"
    by (simp_all add: subs_list_def ex_diamond_def empty_state_def ex_env_lost_def
        returns_silently_quiet_cb)
  have c: "notifyLostSubs ex_env_lost 1 \<noteq> None" by (simp add: ex_env_lost_def)
  show ?thesis
    using release_notifies_lost_subs[OF a] release_notifies_lost_subs[OF b] a(1,3) b(1,3) c
    by simp
qed

section \<open>Reads of one tracking session\<close>

lemma link_new_fields:
  assumes "\<forall>d'. subs s d' \<noteq> None \<longrightarrow> subsTail s d' \<noteq> None"
    and "nl = (case pool s of Some p \<Rightarrow> p | None \<Rightarrow> next_link s)"
    and "dt \<noteq> Some nl"
    and "pool s \<noteq> None \<longrightarrow> nextDep s nl = None"
  shows "\<exists>s'. link_new d sb dt old s = Inr s' \<and>
     nextDep s' = (case dt of None \<Rightarrow> (nextDep s)(nl := old)
                   | Some t \<Rightarrow> (nextDep s)(nl := old, t := Some nl)) \<and>
     dep s' = (dep s)(nl := Some d) \<and> sub s' = (sub s)(nl := Some sb) \<and>
     deps s' = (case dt of None \<Rightarrow> (deps s)(sb := Some nl) | Some t \<Rightarrow> deps s) \<and>
     depsTail s' = (depsTail s)(sb := Some nl) \<and>
     pool s' = (case pool s of Some p \<Rightarrow> prevPropagateOrNextReleased s p | None \<Rightarrow> None) \<and>
     prevPropagateOrNextReleased s' = (prevPropagateOrNextReleased s)(nl := None) \<and>
     next_link s' = (case pool s of Some p \<Rightarrow> next_link s | None \<Rightarrow> Suc (next_link s)) \<and>
     subVersion s' = subVersion s \<and> versionOrDirtyLevel s' = versionOrDirtyLevel s \<and>
     activeSub s' = activeSub s \<and> activeSubsDepth s' = activeSubsDepth s \<and>
     isScope s' = isScope s \<and>
     (\<forall>d'. subs s' d' \<noteq> None \<longrightarrow> subsTail s' d' \<noteq> None)"
proof -
  from assms(1) have w: "subs s d \<noteq> None \<longrightarrow> subsTail s d \<noteq> None" by blast
  show ?thesis
    using w assms(1)[rule_format] assms(2-4)
    by (cases "pool s"; cases old; cases dt; cases "subs s d"; cases "subsTail s d")
       (auto simp: link_new_def Link_get_def Let_def fun_upd_idem)
qed

lemma chain_cursor:
  "chain N p (xs @ ys) \<Longrightarrow>
   (if xs = [] then p else N (last xs)) = (case ys of [] \<Rightarrow> None | r # _ \<Rightarrow> Some r)"
proof (induction xs arbitrary: p)
  case Nil
  then show ?case by (cases ys) auto
next
  case (Cons a xs)
  then show ?case by (cases "xs = []") (auto split: list.splits)
qed

lemma chain_insert_front:
  "chain N p ys \<Longrightarrow> nl \<notin> set ys \<Longrightarrow> chain (N(nl := p)) (Some nl) (nl # ys)"
  by (simp add: chain_upd_other)

lemma chain_insert:
  "chain N p (xs @ ys) \<Longrightarrow> xs \<noteq> [] \<Longrightarrow> nl \<notin> set xs \<Longrightarrow> nl \<notin> set ys \<Longrightarrow>
   chain (N(nl := N (last xs), last xs := Some nl)) p (xs @ nl # ys)"
proof (induction xs arbitrary: p)
  case Nil
  then show ?case by simp
next
  case (Cons a xs)
  have pa: "p = Some a" and c: "chain N (N a) (xs @ ys)" using Cons.prems(1) by simp_all
  have an: "a \<notin> set (xs @ ys)" using c by (rule chain_head_notin)
  have na: "nl \<noteq> a" using Cons.prems(3) by simp
  show ?case
  proof (cases "xs = []")
    case True
    have l: "last [a] = a" by simp
    have e1: "(N(nl := N a, a := Some nl)) a = Some nl" by simp
    have e2: "(N(nl := N a, a := Some nl)) nl = N a" using na by simp
    have c': "chain (N(nl := N a, a := Some nl)) (N a) ys"
      using c True an Cons.prems(4) by (simp add: chain_upd_other)
    have "chain (N(nl := N a, a := Some nl)) p (a # nl # ys)"
      unfolding pa chain.simps e1 e2 using c' by blast
    then show ?thesis unfolding True l append_Cons append_Nil .
  next
    case False
    have l: "last (a # xs) = last xs" using False by simp
    have al: "a \<noteq> last xs" using an False by auto
    have nx: "nl \<notin> set xs" using Cons.prems(3) by simp
    have c': "chain (N(nl := N (last xs), last xs := Some nl)) (N a) (xs @ nl # ys)"
      by (rule Cons.IH[OF c False nx Cons.prems(4)])
    have e: "(N(nl := N (last xs), last xs := Some nl)) a = N a" using na al by simp
    have "chain (N(nl := N (last xs), last xs := Some nl)) p (a # (xs @ nl # ys))"
      unfolding pa chain.simps e using c' by blast
    then show ?thesis unfolding l append_Cons .
  qed
qed

lemma chain_tail:
  "chain N p (xs @ ys) \<Longrightarrow> xs \<noteq> [] \<Longrightarrow> chain N (N (last xs)) ys"
proof (induction xs arbitrary: p)
  case Nil
  then show ?case by simp
next
  case (Cons a xs)
  then show ?case by (cases "xs = []") auto
qed

lemma chain_truncate:
  "chain N p (xs @ ys) \<Longrightarrow> xs \<noteq> [] \<Longrightarrow>
   \<forall>l \<in> set xs. l \<noteq> last xs \<longrightarrow> N' l = N l \<Longrightarrow> N' (last xs) = None \<Longrightarrow> chain N' p xs"
proof (induction xs arbitrary: p)
  case Nil
  then show ?case by simp
next
  case (Cons a xs)
  have pa: "p = Some a" and c: "chain N (N a) (xs @ ys)" using Cons.prems(1) by simp_all
  show ?case
  proof (cases "xs = []")
    case True
    then show ?thesis using pa Cons.prems(4) by simp
  next
    case False
    have an: "a \<notin> set (xs @ ys)" using c by (rule chain_head_notin)
    then have al: "a \<noteq> last xs" using False by auto
    have "chain N' (N a) xs"
      using Cons.IH[OF c False] Cons.prems(3,4) False by auto
    moreover have "N' a = N a" using Cons.prems(3) al False by simp
    ultimately show ?thesis using pa by simp
  qed
qed

lemma link_session_noop:
  assumes "session_inv A v s c r P" and "subVersion s d = v"
  shows "link d a s = Inr s"
  using assms by (simp add: session_inv_def link_def)

lemma link_session_reuse:
  assumes inv: "session_inv A v s c (x # r) P" and nv: "subVersion s d \<noteq> v"
    and dx: "dep s x = Some d"
  shows "session_inv A v (link_reuse d A x (s\<lparr>subVersion := (subVersion s)(d := v)\<rparr>)) (c @ [x]) r P"
proof -
  let ?s' = "link_reuse d A x (s\<lparr>subVersion := (subVersion s)(d := v)\<rparr>)"
  have f: "nextDep ?s' = nextDep s" "deps ?s' = deps s" "dep ?s' = dep s" "sub ?s' = sub s"
    "depsTail ?s' = (depsTail s)(A := Some x)" "subVersion ?s' = (subVersion s)(d := v)"
    "pool ?s' = pool s" "prevPropagateOrNextReleased ?s' = prevPropagateOrNextReleased s"
    "next_link ?s' = next_link s" "subs ?s' = subs s" "subsTail ?s' = subsTail s"
    "activeSub ?s' = activeSub s" "activeSubsDepth ?s' = activeSubsDepth s"
    "versionOrDirtyLevel ?s' = versionOrDirtyLevel s"
    by (simp_all add: link_reuse_def)
  have nd: "Some d \<notin> dep s ` set c" using inv nv by (auto simp: session_inv_def)
  have i5: "\<forall>d'. ((subVersion s)(d := v)) d' = v \<longleftrightarrow> Some d' \<in> dep s ` set (c @ [x])"
    using inv dx by (auto simp: session_inv_def)
  have di: "distinct (map (dep s) (c @ [x]))"
    using inv nd dx by (auto simp: session_inv_def)
  show ?thesis
    unfolding session_inv_def f
    using inv i5 di unfolding session_inv_def by auto
qed

lemma link_session_new:
  assumes inv: "session_inv A v s c r P" and nv: "subVersion s d \<noteq> v"
    and nl: "nl = (case pool s of Some p \<Rightarrow> p | None \<Rightarrow> next_link s)"
    and old: "old = (case r of [] \<Rightarrow> None | x # _ \<Rightarrow> Some x)"
  shows "\<exists>s' P'. link_new d A (depsTail s A) old (s\<lparr>subVersion := (subVersion s)(d := v)\<rparr>) = Inr s' \<and>
           session_inv A v s' (c @ [nl]) r P' \<and> subVersion s' = (subVersion s)(d := v) \<and>
           isScope s' = isScope s"
proof -
  let ?s1 = "s\<lparr>subVersion := (subVersion s)(d := v)\<rparr>"
  let ?dt = "depsTail s A"
  from inv have ch: "chain (nextDep s) (deps s A) (c @ r)"
    and dt: "?dt = (if c = [] then None else Some (last c))"
    and pc: "chain (prevPropagateOrNextReleased s) (pool s) P"
    and dj: "set P \<inter> set (c @ r) = {}"
    and pnd: "\<forall>p \<in> set P. nextDep s p = None"
    and lt: "\<forall>l \<in> set (c @ r) \<union> set P. l < next_link s"
    and st: "\<forall>d. subs s d \<noteq> None \<longrightarrow> subsTail s d \<noteq> None"
    and di: "distinct (map (dep s) c)"
    and ds: "\<forall>l \<in> set (c @ r). dep s l \<noteq> None \<and> sub s l = Some A"
    and i5: "\<forall>d. subVersion s d = v \<longleftrightarrow> Some d \<in> dep s ` set c"
    and ac: "activeSub s = Some A" "activeSubsDepth s \<noteq> 0" "versionOrDirtyLevel s A = v"
    by (simp_all add: session_inv_def)
  define P' where "P' = (case pool s of Some p \<Rightarrow> tl P | None \<Rightarrow> P)"
  have pool_cases: "(pool s = None \<and> P = [] \<and> P' = [] \<and> nl = next_link s) \<or>
                    (pool s = Some nl \<and> P = nl # P' \<and>
                     chain (prevPropagateOrNextReleased s) (prevPropagateOrNextReleased s nl) P')"
    using pc nl by (cases P) (auto simp: P'_def)
  have nlc: "nl \<notin> set (c @ r)" using pool_cases dj lt by auto
  have nlP: "nl \<notin> set P'" using pool_cases by (auto dest: chain_head_notin)
  have P'P: "set P' \<subseteq> set P" using pool_cases by auto
  have dtn: "?dt \<noteq> Some nl" using dt nlc by auto
  have pn: "pool s \<noteq> None \<longrightarrow> nextDep s nl = None" using pool_cases pnd by auto
  have st1: "\<forall>d'. subs ?s1 d' \<noteq> None \<longrightarrow> subsTail ?s1 d' \<noteq> None" using st by simp
  have nl1: "nl = (case pool ?s1 of Some p \<Rightarrow> p | None \<Rightarrow> next_link ?s1)" using nl by (simp cong: option.case_cong)
  have pn1: "pool ?s1 \<noteq> None \<longrightarrow> nextDep ?s1 nl = None" using pn by simp
  from link_new_fields[OF st1 nl1 _ pn1, of ?dt d A old] dtn
  obtain s' where r: "link_new d A ?dt old ?s1 = Inr s'"
    and nd: "nextDep s' = (case ?dt of None \<Rightarrow> (nextDep s)(nl := old)
                   | Some t \<Rightarrow> (nextDep s)(nl := old, t := Some nl))"
    and f: "dep s' = (dep s)(nl := Some d)" "sub s' = (sub s)(nl := Some A)"
      "depsTail s' = (depsTail s)(A := Some nl)"
      "pool s' = (case pool s of Some p \<Rightarrow> prevPropagateOrNextReleased s p | None \<Rightarrow> None)"
      "prevPropagateOrNextReleased s' = (prevPropagateOrNextReleased s)(nl := None)"
      "next_link s' = (case pool s of Some p \<Rightarrow> next_link s | None \<Rightarrow> Suc (next_link s))"
      "subVersion s' = (subVersion s)(d := v)" "versionOrDirtyLevel s' = versionOrDirtyLevel s"
      "activeSub s' = activeSub s" "activeSubsDepth s' = activeSubsDepth s" "isScope s' = isScope s"
    and de: "deps s' = (case ?dt of None \<Rightarrow> (deps s)(A := Some nl) | Some t \<Rightarrow> deps s)"
    and st': "\<forall>d'. subs s' d' \<noteq> None \<longrightarrow> subsTail s' d' \<noteq> None"
    by (auto cong: option.case_cong)
  have oc: "old = (if c = [] then deps s A else nextDep s (last c))"
    using chain_cursor[OF ch] old by simp
  have ch': "chain (nextDep s') (deps s' A) ((c @ [nl]) @ r)"
  proof (cases "c = []")
    case True
    then have "nextDep s' = (nextDep s)(nl := deps s A)" "deps s' A = Some nl"
      using nd de dt oc by simp_all
    moreover have "chain ((nextDep s)(nl := deps s A)) (Some nl) (nl # r)"
      using ch nlc True by (intro chain_insert_front) simp_all
    ultimately show ?thesis using True by simp
  next
    case False
    then have e: "nextDep s' = (nextDep s)(nl := nextDep s (last c), last c := Some nl)"
      "deps s' A = deps s A"
      using nd de dt oc by simp_all
    have "chain ((nextDep s)(nl := nextDep s (last c), last c := Some nl)) (deps s A) (c @ nl # r)"
      using nlc by (intro chain_insert[OF ch False]) simp_all
    then show ?thesis unfolding e by simp
  qed
  have nd_other: "nextDep s' p = nextDep s p" if "p \<in> set P'" for p
  proof -
    have "p \<noteq> nl" using that nlP by auto
    moreover have "c \<noteq> [] \<Longrightarrow> p \<noteq> last c" using that P'P dj by (auto dest: last_in_set)
    ultimately show ?thesis using nd dt by (auto split: option.splits)
  qed
  have i1: "activeSub s' = Some A \<and> activeSubsDepth s' \<noteq> 0 \<and> versionOrDirtyLevel s' A = v"
    using ac f by simp
  have i3: "depsTail s' A = (if c @ [nl] = [] then None else Some (last (c @ [nl])))"
    using f by simp
  have ndc: "Some d \<notin> dep s ` set c" using i5 nv by auto
  have depc: "dep s' l = dep s l" if "l \<in> set (c @ r)" for l using that nlc f by auto
  have i4: "distinct (map (dep s') (c @ [nl]))"
  proof -
    have m: "map (dep s') c = map (dep s) c" using depc by simp
    have "dep s' nl = Some d" using f by simp
    then show ?thesis using di ndc by (simp add: m)
  qed
  have i4': "\<forall>l \<in> set ((c @ [nl]) @ r). dep s' l \<noteq> None \<and> sub s' l = Some A"
    using ds f nlc by auto
  have i5': "\<forall>d'. subVersion s' d' = v \<longleftrightarrow> Some d' \<in> dep s' ` set (c @ [nl])"
  proof (intro allI)
    fix d'
    have "dep s' ` set c = dep s ` set c" by (rule image_cong[OF refl]) (simp add: depc)
    moreover have "dep s' nl = Some d" using f(1) by simp
    ultimately have "dep s' ` set (c @ [nl]) = insert (Some d) (dep s ` set c)" by simp
    then show "subVersion s' d' = v \<longleftrightarrow> Some d' \<in> dep s' ` set (c @ [nl])"
      using i5 f by auto
  qed
  have i6: "chain (prevPropagateOrNextReleased s') (pool s') P'"
    using pool_cases nlP f by (auto simp: chain_upd_other)
  have i6': "set P' \<inter> set ((c @ [nl]) @ r) = {}" using P'P dj nlP by auto
  have i6'': "\<forall>p \<in> set P'. nextDep s' p = None" using nd_other P'P pnd by auto
  have i7: "\<forall>l \<in> set ((c @ [nl]) @ r) \<union> set P'. l < next_link s'"
    using lt P'P pool_cases f by (auto split: option.splits simp: less_Suc_eq)
  have "session_inv A v s' (c @ [nl]) r P'"
    unfolding session_inv_def using i1 ch' i3 i4 i4' i5' i6 i6' i6'' i7 st' by blast
  then show ?thesis using r f by blast
qed

lemma link_session:
  assumes inv: "session_inv A v s c r P" and sc: "a \<or> \<not> isScope s A"
  shows "\<exists>s' c' r' P'. link d a s = Inr s' \<and> session_inv A v s' c' r' P' \<and>
           subVersion s' d = v \<and> isScope s' = isScope s \<and>
           (\<forall>d'. subVersion s d' = v \<longrightarrow> subVersion s' d' = v) \<and>
           (subVersion s d = v \<longrightarrow> s' = s)"
proof (cases "subVersion s d = v")
  case True
  then show ?thesis using link_session_noop[OF inv True, of a] inv by blast
next
  case False
  let ?s1 = "s\<lparr>subVersion := (subVersion s)(d := v)\<rparr>"
  let ?old = "case depsTail s A of Some t \<Rightarrow> nextDep s t | None \<Rightarrow> deps s A"
  from inv have ac: "activeSubsDepth s \<noteq> 0" "activeSub s = Some A" "versionOrDirtyLevel s A = v"
    and ch: "chain (nextDep s) (deps s A) (c @ r)"
    and dt: "depsTail s A = (if c = [] then None else Some (last c))"
    by (simp_all add: session_inv_def)
  have nv: "subVersion s d \<noteq> versionOrDirtyLevel s A" using False ac by simp
  have old: "?old = (case r of [] \<Rightarrow> None | x # _ \<Rightarrow> Some x)"
    using chain_cursor[OF ch] dt by (cases "c = []") simp_all
  have u: "link d a s =
     (case ?old of
           None \<Rightarrow> link_new d A (depsTail s A) ?old ?s1
         | Some ol \<Rightarrow> if dep s ol \<noteq> Some d then link_new d A (depsTail s A) ?old ?s1
                      else Inr (link_reuse d A ol ?s1))"
    using link_unfold[OF ac(1,2) sc nv] ac(3) by (simp add: Let_def)
  show ?thesis
  proof (cases "\<exists>x r'. r = x # r' \<and> dep s x = Some d")
    case True
    then obtain x r' where r: "r = x # r'" and dx: "dep s x = Some d" by blast
    have "link d a s = Inr (link_reuse d A x ?s1)" using u old r dx by simp
    moreover have "session_inv A v (link_reuse d A x ?s1) (c @ [x]) r' P"
      using link_session_reuse[OF _ False dx] inv r by simp
    moreover have "subVersion (link_reuse d A x ?s1) = (subVersion s)(d := v)"
      "isScope (link_reuse d A x ?s1) = isScope s"
      by (simp_all add: link_reuse_def)
    ultimately show ?thesis using False by (metis fun_upd_apply)
  next
    case F: False
    from link_session_new[where d = d, OF inv False refl old]
    obtain s' P' where n: "link_new d A (depsTail s A) ?old ?s1 = Inr s'"
      "session_inv A v s' (c @ [case pool s of Some p \<Rightarrow> p | None \<Rightarrow> next_link s]) r P'"
      "subVersion s' = (subVersion s)(d := v)" "isScope s' = isScope s"
      by blast
    have "link d a s = Inr s'"
      using u old n(1) F by (cases r) auto
    then show ?thesis using n False by (metis fun_upd_apply)
  qed
qed

lemma reads_session:
  assumes "session_inv A v s c r P" and "\<forall>(d, a) \<in> set rs. a \<or> \<not> isScope s A"
  shows "\<exists>s' c' r' P'. reads rs s = Inr s' \<and> session_inv A v s' c' r' P' \<and>
           (\<forall>(d, a) \<in> set rs. subVersion s' d = v) \<and>
           (\<forall>d'. subVersion s d' = v \<longrightarrow> subVersion s' d' = v)"
  using assms
proof (induction rs arbitrary: s c r P)
  case Nil
  then show ?case by auto
next
  case (Cons x rs)
  obtain d a where x: "x = (d, a)" by (cases x)
  from Cons.prems(2) have sc: "a \<or> \<not> isScope s A" by (simp add: x)
  from link_session[OF Cons.prems(1) sc, of d]
  obtain s1 c1 r1 P1 where l: "link d a s = Inr s1" "session_inv A v s1 c1 r1 P1"
    "subVersion s1 d = v" "isScope s1 = isScope s"
    "\<forall>d'. subVersion s d' = v \<longrightarrow> subVersion s1 d' = v" by blast
  have "\<forall>(d, a) \<in> set rs. a \<or> \<not> isScope s1 A" using Cons.prems(2) l(4) by auto
  from Cons.IH[OF l(2) this]
  obtain s' c' r' P' where r: "reads rs s1 = Inr s'" "session_inv A v s' c' r' P'"
    "\<forall>(d, a) \<in> set rs. subVersion s' d = v"
    "\<forall>d'. subVersion s1 d' = v \<longrightarrow> subVersion s' d' = v" by blast
  have "reads (x # rs) s = Inr s'" using l(1) r(1) by (simp add: x)
  moreover have "\<forall>(d, a) \<in> set (x # rs). subVersion s' d = v" using r(3,4) l(3) by (simp add: x)
  moreover have "\<forall>d'. subVersion s d' = v \<longrightarrow> subVersion s' d' = v" using l(5) r(4) by blast
  ultimately show ?case using r(2) by blast
qed

lemma keeps_linksD:
  assumes "keeps_links f"
  obtains s' where "f s = Inr s'" "dep s' = dep s" "sub s' = sub s" "nextDep s' = nextDep s"
    "deps s' = deps s"
proof -
  from assms have "case f s of Inl er \<Rightarrow> False
          | Inr s' \<Rightarrow> dep s' = dep s \<and> sub s' = sub s \<and> nextDep s' = nextDep s \<and> deps s' = deps s"
    unfolding keeps_links_def by blast
  then show ?thesis using that by (cases "f s") auto
qed

lemma unlinkSub_frame:
  assumes "dep s n \<noteq> None" and cb: "\<forall>d f. notifyLostSubs e d = Some f \<longrightarrow> keeps_links f"
  shows "\<exists>s'. unlinkSub e n s = Inr s' \<and> nextDep s' = nextDep s \<and> deps s' = deps s \<and>
           dep s' = dep s \<and> sub s' = (sub s)(n := None)"
proof -
  from assms(1) obtain d where d: "dep s n = Some d" by auto
  define nx where "nx = nextSub s n"
  define pv where "pv = prevSubOrUpdate s n"
  define s1 where "s1 = (case nx of Some m \<Rightarrow> s\<lparr>prevSubOrUpdate := (prevSubOrUpdate s)(m := pv)\<rparr>
                | None \<Rightarrow> s)"
  define s2 where "s2 = (case pv of Some p \<Rightarrow> s1\<lparr>nextSub := (nextSub s1)(p := nx)\<rparr>
                | None \<Rightarrow> s1)"
  define s3 where "s3 = (if nx = None then s2\<lparr>subsTail := (subsTail s2)(d := pv)\<rparr> else s2)"
  define s4 where "s4 = (if pv = None then s3\<lparr>subs := (subs s3)(d := nx)\<rparr> else s3)"
  define s5 where "s5 = s4\<lparr>sub := (sub s4)(n := None),
                          prevSubOrUpdate := (prevSubOrUpdate s4)(n := None),
                          nextSub := (nextSub s4)(n := None)\<rparr>"
  have u: "unlinkSub e n s =
             (if subs s5 d = None
                 then (case notifyLostSubs e d of
                         Some f \<Rightarrow> call f (LostSubs d) s5
                       | None \<Rightarrow> Inr s5)
                 else Inr s5)"
    unfolding unlinkSub_def Let_def s5_def s4_def s3_def s2_def s1_def nx_def pv_def
    by (simp add: d)
  have f5: "nextDep s5 = nextDep s" "deps s5 = deps s" "dep s5 = dep s" "sub s5 = (sub s)(n := None)"
    unfolding s5_def s4_def s3_def s2_def s1_def by (simp_all split: option.splits)
  show ?thesis
  proof (cases "subs s5 d = None \<and> notifyLostSubs e d \<noteq> None")
    case False
    then have "unlinkSub e n s = Inr s5" using u by auto
    then show ?thesis using f5 by simp
  next
    case True
    then obtain f where f: "notifyLostSubs e d = Some f" by auto
    with cb have "keeps_links f" by blast
    from keeps_linksD[OF this, of "s5\<lparr>trace := trace s5 @ [LostSubs d]\<rparr>"]
    obtain s' where "f (s5\<lparr>trace := trace s5 @ [LostSubs d]\<rparr>) = Inr s'"
      "dep s' = dep s5" "sub s' = sub s5" "nextDep s' = nextDep s5" "deps s' = deps s5"
      by auto
    then show ?thesis using u True f f5 by (simp add: call_def)
  qed
qed

lemma release_frame:
  assumes "dep s n \<noteq> None" and "\<forall>d f. notifyLostSubs e d = Some f \<longrightarrow> keeps_links f"
  shows "\<exists>s'. release e n s = Inr s' \<and> nextDep s' = nextDep s \<and> deps s' = deps s \<and>
           dep s' = (dep s)(n := None) \<and> sub s' = (sub s)(n := None)"
proof -
  from unlinkSub_frame[OF assms]
  obtain s1 where "unlinkSub e n s = Inr s1" "nextDep s1 = nextDep s" "deps s1 = deps s"
    "dep s1 = dep s" "sub s1 = (sub s)(n := None)" by blast
  then show ?thesis by (simp add: release_def)
qed

lemma releaseDeps_loop_result:
  "chain (nextDep s) nd rs \<Longrightarrow> nd = nextDep s tb \<Longrightarrow> tb \<notin> set rs \<Longrightarrow>
   \<forall>r \<in> set rs. dep s r \<noteq> None \<Longrightarrow>
   \<forall>d f. notifyLostSubs e d = Some f \<longrightarrow> keeps_links f \<Longrightarrow>
   \<exists>s'. releaseDeps_loop e (s, tb, nd) = Some (Inr s') \<and> deps s' = deps s \<and>
        (\<forall>l. l \<notin> set rs \<longrightarrow> dep s' l = dep s l \<and> sub s' l = sub s l) \<and>
        (\<forall>l. l \<notin> set rs \<and> l \<noteq> tb \<longrightarrow> nextDep s' l = nextDep s l) \<and>
        nextDep s' tb = None"
proof (induction rs arbitrary: s tb nd)
  case Nil
  then have "nd = None" by simp
  then have "releaseDeps_loop e (s, tb, nd) = Some (Inr s)"
    by (subst releaseDeps_loop.simps) simp
  then show ?case using Nil.prems(2) \<open>nd = None\<close> by simp
next
  case (Cons n rs)
  have nd: "nd = Some n" and ch: "chain (nextDep s) (nextDep s n) rs" using Cons.prems(1) by simp_all
  have ntb: "n \<noteq> tb" "tb \<notin> set rs" using Cons.prems(3) by auto
  have nrs: "n \<notin> set rs" using ch by (rule chain_head_notin)
  define s1 where "s1 = s\<lparr>nextDep := (nextDep s)(tb := None)\<rparr>"
  have n1: "nextDep s1 n = nextDep s n" using ntb by (simp add: s1_def)
  have d1: "dep s1 n \<noteq> None" using Cons.prems(4) by (simp add: s1_def)
  from release_frame[OF d1 Cons.prems(5)]
  obtain s2 where r: "release e n s1 = Inr s2" and f2: "nextDep s2 = nextDep s1" "deps s2 = deps s1"
    "dep s2 = (dep s1)(n := None)" "sub s2 = (sub s1)(n := None)" by blast
  have u: "releaseDeps_loop e (s, tb, nd) = releaseDeps_loop e (s2, n, nextDep s n)"
    using nd r n1 by (subst releaseDeps_loop.simps) (simp add: s1_def[symmetric] Let_def)
  have ch2: "chain (nextDep s2) (nextDep s n) rs"
    unfolding f2 s1_def using ch ntb(2) by (simp add: chain_upd_other)
  have e2: "nextDep s n = nextDep s2 n" using n1 f2 by simp
  have dd: "\<forall>r \<in> set rs. dep s2 r \<noteq> None"
    using Cons.prems(4) nrs by (auto simp: f2 s1_def)
  from Cons.IH[OF ch2 e2 nrs dd Cons.prems(5)]
  obtain s' where l: "releaseDeps_loop e (s2, n, nextDep s n) = Some (Inr s')"
    and g: "deps s' = deps s2"
      "\<forall>l. l \<notin> set rs \<longrightarrow> dep s' l = dep s2 l \<and> sub s' l = sub s2 l"
      "\<forall>l. l \<notin> set rs \<and> l \<noteq> n \<longrightarrow> nextDep s' l = nextDep s2 l"
    by blast
  have "deps s' = deps s" using g(1) f2 by (simp add: s1_def)
  moreover have "\<forall>l. l \<notin> set (n # rs) \<longrightarrow> dep s' l = dep s l \<and> sub s' l = sub s l"
    using g(2) f2 by (simp add: s1_def)
  moreover have "\<forall>l. l \<notin> set (n # rs) \<and> l \<noteq> tb \<longrightarrow> nextDep s' l = nextDep s l"
    using g(3) f2 by (simp add: s1_def)
  moreover have "nextDep s' tb = None"
    using g(3) f2 ntb by (simp add: s1_def)
  ultimately show ?case using u l by simp
qed

lemma endTrack_session:
  assumes inv: "session_inv A v s c r P" and ne: "c \<noteq> []"
    and cb: "\<forall>d f. notifyLostSubs e d = Some f \<longrightarrow> keeps_links f"
  shows "\<exists>s'. endTrack e A lastActiveSub s = Some (Inr s') \<and>
           chain (nextDep s') (deps s' A) c \<and>
           (\<forall>l \<in> set c. dep s' l = dep s l \<and> sub s' l = sub s l)"
proof -
  from inv have ch: "chain (nextDep s) (deps s A) (c @ r)"
    and dt: "depsTail s A = Some (last c)"
    and ds: "\<forall>l \<in> set (c @ r). dep s l \<noteq> None \<and> sub s l = Some A"
    using ne by (simp_all add: session_inv_def)
  have di: "distinct (c @ r)" using ch by (rule chain_distinct)
  have lc: "last c \<in> set c" using ne by simp
  have tr: "last c \<notin> set r" using di lc by auto
  have chr: "chain (nextDep s) (nextDep s (last c)) r" by (rule chain_tail[OF ch ne])
  have dr: "\<forall>x \<in> set r. dep s x \<noteq> None" using ds by simp
  from releaseDeps_loop_result[OF chr refl tr dr cb]
  obtain s1 where l: "releaseDeps_loop e (s, last c, nextDep s (last c)) = Some (Inr s1)"
    and g: "deps s1 = deps s"
      "\<forall>l. l \<notin> set r \<longrightarrow> dep s1 l = dep s l \<and> sub s1 l = sub s l"
      "\<forall>l. l \<notin> set r \<and> l \<noteq> last c \<longrightarrow> nextDep s1 l = nextDep s l"
      "nextDep s1 (last c) = None"
    by blast
  have cr: "\<forall>l \<in> set c. l \<notin> set r" using di by auto
  have ag: "\<forall>l \<in> set c. l \<noteq> last c \<longrightarrow> nextDep s1 l = nextDep s l" using g(3) cr by auto
  have c1: "chain (nextDep s1) (deps s A) c"
    by (rule chain_truncate[where N = "nextDep s" and ys = r, OF ch ne ag g(4)])
  define s' where "s' = s1\<lparr>versionOrDirtyLevel := (versionOrDirtyLevel s1)(A := NotDirty),
                         activeSubsDepth := decrement (activeSubsDepth s1),
                         activeSub := lastActiveSub\<rparr>"
  have "endTrack e A lastActiveSub s = Some (Inr s')"
    using l dt by (simp add: endTrack_def postTrack_def releaseDeps_def s'_def)
  moreover have "chain (nextDep s') (deps s' A) c" using c1 g(1) by (simp add: s'_def)
  moreover have "\<forall>l \<in> set c. dep s' l = dep s l \<and> sub s' l = sub s l"
    using g(2) cr by (simp add: s'_def)
  ultimately show ?thesis by blast
qed

lemma reads_append:
  "reads (xs @ ys) s = (case reads xs s of Inl er \<Rightarrow> Inl er | Inr s' \<Rightarrow> reads ys s')"
  by (induction xs arbitrary: s) (auto split: sum.splits)

lemma filter_distinct_map:
  "distinct (map f xs) \<Longrightarrow> y \<in> f ` set xs \<Longrightarrow> length (filter (\<lambda>l. f l = y) xs) = 1"
proof (induction xs)
  case Nil
  then show ?case by simp
next
  case (Cons x xs)
  show ?case
  proof (cases "f x = y")
    case True
    then have "y \<notin> f ` set xs" using Cons.prems(1) by auto
    then have "filter (\<lambda>l. f l = y) xs = []" by (auto simp: filter_empty_conv)
    then show ?thesis using True by simp
  next
    case False
    then show ?thesis using Cons by auto
  qed
qed

text \<open>
  The test \<open>dep.subVersion === sub.versionOrDirtyLevel\<close> of
  \<open>Dependency.link\<close> does its work in a session that no other session interrupts:
  when every read goes through \<open>Dependency.link\<close> with the subscriber active, a
  read of a dependency that the session has read before changes nothing, the run is the
  run without that read, and when the session ends the dependency list of the subscriber
  holds exactly one link for each dependency read.
\<close>

theorem reads_link_once:
  assumes inv: "session_inv A v s [] old P"
    and ne: "rs \<noteq> []"
    and sc: "\<forall>(d, a) \<in> set rs. a \<or> \<not> isScope s A"
    and cb: "\<forall>d f. notifyLostSubs e d = Some f \<longrightarrow> keeps_links f"
  shows "\<exists>s1 s2 ds.
           reads rs s = Inr s1 \<and>
           (\<forall>rs1 d a rs2. rs = rs1 @ (d, a) # rs2 \<and> d \<in> fst ` set rs1 \<longrightarrow>
              reads rs s = reads (rs1 @ rs2) s) \<and>
           endTrack e A lastActiveSub s1 = Some (Inr s2) \<and>
           chain (nextDep s2) (deps s2 A) ds \<and>
           (\<forall>l \<in> set ds. sub s2 l = Some A) \<and>
           (\<forall>(d, a) \<in> set rs. length (filter (\<lambda>l. dep s2 l = Some d) ds) = 1)"
proof -
  from reads_session[OF inv sc]
  obtain s1 c r P' where r1: "reads rs s = Inr s1" and i1: "session_inv A v s1 c r P'"
    and v1: "\<forall>(d, a) \<in> set rs. subVersion s1 d = v" by blast
  obtain d0 a0 where "(d0, a0) \<in> set rs" using ne by (cases rs) auto
  then have "subVersion s1 d0 = v" using v1 by auto
  then have cne: "c \<noteq> []" using i1 by (auto simp: session_inv_def)
  from endTrack_session[OF i1 cne cb]
  obtain s2 where e2: "endTrack e A lastActiveSub s1 = Some (Inr s2)"
    and c2: "chain (nextDep s2) (deps s2 A) c"
    and d2: "\<forall>l \<in> set c. dep s2 l = dep s1 l \<and> sub s2 l = sub s1 l" by blast
  have sub2: "\<forall>l \<in> set c. sub s2 l = Some A" using d2 i1 by (simp add: session_inv_def)
  have cnt: "length (filter (\<lambda>l. dep s2 l = Some d) c) = 1" if "(d, a) \<in> set rs" for d a
  proof -
    have "subVersion s1 d = v" using v1 that by auto
    then have "Some d \<in> dep s1 ` set c" using i1 by (simp add: session_inv_def)
    moreover have "distinct (map (dep s1) c)" using i1 by (simp add: session_inv_def)
    ultimately have "length (filter (\<lambda>l. dep s1 l = Some d) c) = 1" by (rule filter_distinct_map[rotated])
    moreover have "filter (\<lambda>l. dep s2 l = Some d) c = filter (\<lambda>l. dep s1 l = Some d) c"
      using d2 by (intro filter_cong) auto
    ultimately show ?thesis by simp
  qed
  have noop: "reads rs s = reads (rs1 @ rs2) s"
    if "rs = rs1 @ (d, a) # rs2 \<and> d \<in> fst ` set rs1" for rs1 d a rs2
  proof -
    from that have sp: "rs = rs1 @ (d, a) # rs2" and dr: "d \<in> fst ` set rs1" by simp_all
    have sc1: "\<forall>(d, a) \<in> set rs1. a \<or> \<not> isScope s A" using sc sp by auto
    from reads_session[OF inv sc1]
    obtain t c' r' P'' where t: "reads rs1 s = Inr t" and it: "session_inv A v t c' r' P''"
      and vt: "\<forall>(d, a) \<in> set rs1. subVersion t d = v" by blast
    have "subVersion t d = v" using vt dr by auto
    then have "link d a t = Inr t" by (rule link_session_noop[OF it])
    then show ?thesis using t by (simp add: sp reads_append)
  qed
  show ?thesis using r1 noop e2 c2 sub2 cnt by blast
qed

lemma keeps_links_quiet_cb: "keeps_links quiet_cb"
  by (simp add: keeps_links_def quiet_cb_def)

theorem reads_link_once_witness:
  "session_inv 0 3 ex_stale [] [0] [] \<and>
   (\<exists>s1 s2 ds. reads [(2, True), (2, True), (1, True)] ex_stale = Inr s1 \<and>
      reads [(2, True), (2, True), (1, True)] ex_stale = reads [(2, True), (1, True)] ex_stale \<and>
      endTrack ex_env_lost 0 None s1 = Some (Inr s2) \<and>
      chain (nextDep s2) (deps s2 0) ds \<and>
      length (filter (\<lambda>l. dep s2 l = Some 2) ds) = 1 \<and>
      length (filter (\<lambda>l. dep s2 l = Some 1) ds) = 1)"
proof -
  have i: "session_inv 0 3 ex_stale [] [0] []"
    by (simp add: session_inv_def ex_stale_def empty_state_def)
  have ne: "[(2, True), (2, True), (1::nat, True)] \<noteq> []" by simp
  have sc: "\<forall>(d, a) \<in> set [(2, True), (2, True), (1::nat, True)]. a \<or> \<not> isScope ex_stale 0" by simp
  have cb: "\<forall>d f. notifyLostSubs ex_env_lost d = Some f \<longrightarrow> keeps_links f"
    by (simp add: ex_env_lost_def keeps_links_quiet_cb)
  from reads_link_once[OF i ne sc cb, of None]
  obtain s1 s2 ds where r: "reads [(2, True), (2, True), (1, True)] ex_stale = Inr s1"
    and n: "\<forall>rs1 d a rs2. [(2, True), (2, True), (1::nat, True)] = rs1 @ (d, a) # rs2 \<and> d \<in> fst ` set rs1 \<longrightarrow>
              reads [(2, True), (2, True), (1, True)] ex_stale = reads (rs1 @ rs2) ex_stale"
    and e: "endTrack ex_env_lost 0 None s1 = Some (Inr s2)" "chain (nextDep s2) (deps s2 0) ds"
    and c: "\<forall>(d, a) \<in> set [(2, True), (2, True), (1::nat, True)].
              length (filter (\<lambda>l. dep s2 l = Some d) ds) = 1"
    by blast
  have "[(2, True), (2, True), (1::nat, True)] = [(2, True)] @ (2, True) # [(1, True)] \<and>
        2 \<in> fst ` set [(2::nat, True)]" by simp
  with n have "reads [(2, True), (2, True), (1, True)] ex_stale = reads ([(2, True)] @ [(1, True)]) ex_stale"
    by blast
  then have "reads [(2, True), (2, True), (1, True)] ex_stale = reads [(2, True), (1, True)] ex_stale"
    by simp
  moreover have "length (filter (\<lambda>l. dep s2 l = Some 2) ds) = 1"
    "length (filter (\<lambda>l. dep s2 l = Some 1) ds) = 1" using c by auto
  ultimately show ?thesis using i r e by blast
qed

text \<open>
  Claim C7. The test is defeated by a nested session. Subscriber 0 reads dependency 5;
  subscriber 1 runs a nested session that reads dependency 5 too, which overwrites
  \<open>subVersion\<close> of 5 with the stamp of the nested session; back in the session of
  subscriber 0, the next read of dependency 5 does not return early and takes a new link.
  After the session of subscriber 0 has ended, its dependency list holds the links 0 and
  2, both from dependency 5 to subscriber 0: two links, not one.
\<close>

theorem reread_after_nested_session_links_twice:
  "link 5 True (snd (startTrack 0 empty_state)) = Inr ex_reread1 \<and>
   link 5 True (snd (startTrack 1 ex_reread1)) = Inr ex_reread2 \<and>
   endTrack ex_env 1 (Some 0) ex_reread2 = Some (Inr ex_reread3) \<and>
   activeSub ex_reread3 = Some 0 \<and> versionOrDirtyLevel ex_reread3 0 = 3 \<and>
   next_link ex_reread3 = 2 \<and>
   link 5 True ex_reread3 = Inr ex_reread4 \<and> next_link ex_reread4 = 3 \<and>
   endTrack ex_env 0 None ex_reread4 = Some (Inr ex_reread5) \<and>
   deps ex_reread5 0 = Some 0 \<and> nextDep ex_reread5 0 = Some 2 \<and> nextDep ex_reread5 2 = None \<and>
   dep ex_reread5 0 = Some 5 \<and> dep ex_reread5 2 = Some 5 \<and>
   sub ex_reread5 0 = Some 0 \<and> sub ex_reread5 2 = Some 0"
  unfolding ex_reread5_def ex_reread4_def ex_reread3_def ex_reread2_def ex_reread1_def
  by (simp add: link_def link_new_def link_reuse_def Link_get_def startTrack_def preTrack_def
      endTrack_def postTrack_def releaseDeps_def releaseDeps_loop.simps release_def unlinkSub_def
      empty_state_def ex_env_def increment_def decrement_def Let_def)

section \<open>resolveMaybeDirty\<close>















text \<open>\<open>propagate\<close> increments the \<open>depVersion\<close> of its dependency and writes no other.\<close>

lemma propagate_step_depVersion:
  assumes "propagate_step e c = Next c'"
  shows "depVersion (fst c') = depVersion (fst c)"
  using assms
  by (auto simp: propagate_step_def Let_def split: prod.splits option.splits if_splits)

lemma propagate_steps_depVersion:
  "depVersion (fst (propagate_steps e k c)) = depVersion (fst c)"
proof (induction k arbitrary: c)
  case 0
  show ?case by simp
next
  case (Suc k)
  show ?case
  proof (cases "propagate_step e c")
    case (Next c')
    then show ?thesis using Suc.IH[of c'] propagate_step_depVersion[OF Next] by simp
  next
    case (Done r)
    then show ?thesis by simp
  qed
qed

lemma propagate_depVersion:
  assumes "propagate e d s = Some (Inr s')"
  shows "depVersion s' = (depVersion s)(d := increment (depVersion s d))"
proof -
  let ?s1 = "s\<lparr>depVersion := (depVersion s)(d := increment (depVersion s d))\<rparr>"
  let ?c = "(?s1, Some d, subs ?s1 d, Dirty, 0::int)"
  from assms have "propagate_loop e ?c = Some (Inr s')" by (simp add: propagate_def Let_def)
  from propagate_loop_steps[OF this] obtain k
    where "propagate_step e (propagate_steps e k ?c) = Done (Inr s')" ..
  then have "s' = fst (propagate_steps e k ?c)" by (rule propagate_step_Done)
  then have "depVersion s' = depVersion (fst ?c)" by (simp only: propagate_steps_depVersion)
  then show ?thesis by simp
qed




text \<open>
  The update of the example does what is asked of an update: it sets its node to
  NotDirty and runs \<open>propagate\<close> from it. With the \<open>depVersion\<close> of its node at
  \<open>2^53\<close> it leaves that \<open>depVersion\<close> as it is.
\<close>

lemma recomputes_ex_changed_update: "recomputes 1 ex_changed_update"
  unfolding recomputes_def
proof (intro allI impI)
  fix x :: state
  let ?x1 = "x\<lparr>versionOrDirtyLevel := (versionOrDirtyLevel x)(1 := NotDirty)\<rparr>"
  have "kept 1 x ?x1" by (simp add: kept_def same_links_def)
  moreover have "case propagate ex_env 1 ?x1 of
      Some r \<Rightarrow> ex_changed_update x = r | None \<Rightarrow> ex_changed_update x = Inl Thrown"
    by (simp add: ex_changed_update_def split: option.splits)
  ultimately show "\<exists>x1 e'. kept 1 x x1 \<and>
       (ex_changed_update x = Inr x1 \<or>
        (case propagate e' 1 x1 of Some r \<Rightarrow> ex_changed_update x = r
         | None \<Rightarrow> ex_changed_update x = Inl Thrown))"
    by blast
qed

lemma keeps_depVersion_ex_changed_update:
  "keeps_depVersion (depVersion ex_chain_max) 1 ex_changed_update"
  unfolding keeps_depVersion_def
proof (intro allI impI, elim conjE)
  fix x y :: state
  let ?x1 = "x\<lparr>versionOrDirtyLevel := (versionOrDirtyLevel x)(1 := NotDirty)\<rparr>"
  assume dx: "depVersion x = depVersion ex_chain_max" and fx: "ex_changed_update x = Inr y"
  from fx have "propagate ex_env 1 ?x1 = Some (Inr y)"
    by (cases "propagate ex_env 1 ?x1") (simp_all add: ex_changed_update_def)
  from propagate_depVersion[OF this] have "depVersion y 1 = increment (depVersion x 1)" by simp
  also have "depVersion x 1 = 2 ^ 53" using dx by (simp add: ex_chain_max_def)
  finally show "depVersion y 1 = depVersion ex_chain_max 1"
    by (simp add: increment_def ex_chain_max_def)
qed


text \<open>
  The store and the methods of the example meet every condition of the amended claim
  but the bound on \<open>depVersion\<close>.
\<close>

lemma ex_chain_max_conditions:
  "deps_ok ex_changed_env [0, 1, 2, 3] ex_chain_Dp (\<lambda>n. n) ex_chain_max \<and>
   heads_ok [0, 1, 2, 3] ex_chain_max \<and>
   (\<forall>d \<in> set [0, 1, 2, 3::nat]. d < 2 \<longrightarrow>
      (\<forall>f. update ex_changed_env d = Some f \<longrightarrow>
         recomputes d f \<and> keeps_depVersion (depVersion ex_chain_max) d f)) \<and>
   (\<forall>d \<in> set [0, 1, 2, 3::nat]. d < 2 \<longrightarrow>
      (\<forall>g. notify ex_changed_env d = Some g \<longrightarrow> steady d g)) \<and>
   \<not> depVersion ex_chain_max 1 < 2 ^ 53"
proof -
  have "deps_ok ex_changed_env [0, 1, 2, 3] ex_chain_Dp (\<lambda>n. n) ex_chain_max"
    "heads_ok [0, 1, 2, 3] ex_chain_max"
    by (simp_all add: deps_ok_def heads_ok_def ex_changed_env_def ex_env_def ex_chain_max_def
        ex_chain_dirty_def ex_chain_def ex_chain_Dp_def empty_state_def)
  moreover have "\<forall>d \<in> set [0, 1, 2, 3::nat]. d < 2 \<longrightarrow>
      (\<forall>f. update ex_changed_env d = Some f \<longrightarrow>
         recomputes d f \<and> keeps_depVersion (depVersion ex_chain_max) d f)"
    using recomputes_ex_changed_update keeps_depVersion_ex_changed_update
    by (simp add: ex_changed_env_def ex_env_def)
  moreover have "\<forall>d \<in> set [0, 1, 2, 3::nat]. d < 2 \<longrightarrow>
      (\<forall>g. notify ex_changed_env d = Some g \<longrightarrow> steady d g)"
    by (simp add: ex_changed_env_def ex_env_def)
  moreover have "\<not> depVersion ex_chain_max 1 < 2 ^ 53"
    by (simp add: ex_chain_max_def)
  ultimately show ?thesis by blast
qed





end
